theory Spec2Isabelle
  imports Complex_Main
begin

section \<open>Enumerations and helpers of the package\<close>

text \<open>
  Modelled from the spec: the modules \<^verbatim>\<open>DataCategoryEnum\<close>, \<^verbatim>\<open>LoopEnum\<close> and
  \<^verbatim>\<open>MemHierEnum\<close> are imported by \<^verbatim>\<open>LoopBlockingScheme.py\<close> but are not among the
  sources. They are integer enumerations used as list indices: data category
  \<open>{FIL, IFM, OFM}\<close>, loop kind \<open>{IFM, OFM, BAT}\<close>, hierarchy level
  \<open>{DRAM, GBUF, ITCN, REGF}\<close>, each followed by its count \<open>NUM\<close>.
\<close>

definition de_FIL :: nat where "de_FIL = 0"
definition de_IFM :: nat where "de_IFM = 1"
definition de_OFM :: nat where "de_OFM = 2"
definition de_NUM :: nat where "de_NUM = 3"

definition le_IFM :: nat where "le_IFM = 0"
definition le_OFM :: nat where "le_OFM = 1"
definition le_BAT :: nat where "le_BAT = 2"
definition le_NUM :: nat where "le_NUM = 3"

definition me_DRAM :: nat where "me_DRAM = 0"
definition me_GBUF :: nat where "me_GBUF = 1"
definition me_ITCN :: nat where "me_ITCN = 2"
definition me_REGF :: nat where "me_REGF = 3"
definition me_NUM :: nat where "me_NUM = 4"

text \<open>The local blocking-level enumeration \<^verbatim>\<open>LoopBlockingScheme.BL\<close>.\<close>

definition BL_GBUF :: nat where "BL_GBUF = 0"
definition BL_REGF :: nat where "BL_REGF = 1"
definition BL_NUM :: nat where "BL_NUM = 2"

text \<open>
  Modelled from the spec: \<^verbatim>\<open>Util.prod\<close> is not among the sources; it multiplies up the
  elements of a sequence, starting from 1.
\<close>

definition Util_prod :: "int list \<Rightarrow> int" where
  "Util_prod xs = foldl (*) 1 xs"

text \<open>The exceptions the code can raise.\<close>

datatype error = AssertionError | IndexError | TypeError | AttributeError

text \<open>
  Python floats are idealised as real numbers; \<^verbatim>\<open>float('inf')\<close>, which \<^verbatim>\<open>get_cost\<close>
  returns for an invalid scheme, is a value of its own.
\<close>

datatype pyfloat = Float real | PosInf

section \<open>The input records\<close>

text \<open>
  Modelled from the spec: the classes of the four input records are not among the sources.
  Their fields are the attributes \<^verbatim>\<open>LoopBlockingScheme.py\<close> reads. Tables per data category
  or hierarchy level are lists indexed by the enumerations above.
\<close>

record nested_loop_desc =
  loopcnt_ifm :: int
  loopcnt_ofm :: int
  loopcnt_bat :: int
  usize_gbuf :: "int list"
  usize_regf :: "int list"
  unit_ops :: real
  unit_time :: real
  unit_access :: "real list list"

record resource =
  size_regf :: int
  size_gbuf :: int

record options =
  sw_gbuf_bypass :: "bool list"

record cost =
  mac_op :: real
  mem_hier :: "real list"
  unit_static :: real

section \<open>The scheme record\<close>

text \<open>
  The attributes of a \<^verbatim>\<open>LoopBlockingScheme\<close> object. The attributes that the constructor
  assigns only after the capacity checks are options: \<open>None\<close> is an attribute that has
  not been assigned. For \<open>ops\<close>, \<open>time\<close> and \<open>access\<close>, \<open>None\<close> is also the
  \<^verbatim>\<open>float('nan')\<close> placeholder the constructor stores until \<^verbatim>\<open>_calc_stats\<close> overwrites it.
\<close>

record scheme =
  ti :: "int list"
  to :: "int list"
  tb :: "int list"
  orders :: "int list list"
  tip :: int
  top :: int
  tbp :: int
  unit_size :: "int list list"
  unit_cnt :: "int list list"
  stored_in_gbuf :: "bool list"
  valid :: bool
  fetch :: "int list list option"
  unit_ops :: "real option"
  unit_time :: "real option"
  unit_access :: "real list list option"
  part_occ :: "real option"
  finalized_stats :: "bool option"
  ops :: "real option"
  time :: "real option"
  access :: "real list list option"

subsection \<open>\<^verbatim>\<open>_set_unit_cnt\<close>\<close>

definition unit_cnt_row :: "int list \<Rightarrow> int list \<Rightarrow> int list \<Rightarrow> nat \<Rightarrow> int list" where
  "unit_cnt_row tis tos tbs bl =
     (let blp1 = bl + 1;
          pblti = Util_prod (drop blp1 tis);
          pblto = Util_prod (drop blp1 tos);
          pbltb = Util_prod (drop blp1 tbs);
          uc = replicate de_NUM 1;
          uc = uc[de_FIL := pblti * pblto];
          uc = uc[de_IFM := pblti * pbltb];
          uc = uc[de_OFM := pblto * pbltb]
      in uc)"

definition set_unit_cnt :: "int list \<Rightarrow> int list \<Rightarrow> int list \<Rightarrow> int list list" where
  "set_unit_cnt tis tos tbs = map (unit_cnt_row tis tos tbs) [0..<BL_NUM]"

subsection \<open>\<^verbatim>\<open>is_valid\<close> and \<^verbatim>\<open>data_size\<close>\<close>

definition is_valid :: "scheme \<Rightarrow> bool" where
  "is_valid s = valid s"

text \<open>The body of \<^verbatim>\<open>data_size\<close> for a given category.\<close>

definition data_size_dce :: "scheme \<Rightarrow> nat \<Rightarrow> nat \<Rightarrow> int" where
  "data_size_dce s blvl dce =
     (let size = unit_cnt s ! blvl ! dce * unit_size s ! blvl ! dce;
          size = (if blvl = BL_GBUF
                  then size * (if stored_in_gbuf s ! dce then 1 else 0)
                  else size)
      in size)"

definition data_size :: "scheme \<Rightarrow> nat \<Rightarrow> nat option \<Rightarrow> int" where
  "data_size s blvl dce =
     (case dce of
        None \<Rightarrow> sum_list (map (data_size_dce s blvl) [0..<de_NUM])
      | Some d \<Rightarrow> data_size_dce s blvl d)"

text \<open>
  The capacity test \<^verbatim>\<open>data_size(REGF) > size_regf or data_size(GBUF) > size_gbuf\<close> of the
  constructor, evaluated left to right. Reading a unit-size row with fewer than
  \<^verbatim>\<open>de.NUM\<close> entries raises \<^verbatim>\<open>IndexError\<close>.
\<close>

definition check_size :: "scheme \<Rightarrow> resource \<Rightarrow> error + bool" where
  "check_size s res =
     (if length (unit_size s ! BL_REGF) < de_NUM then Inl IndexError
      else if data_size s BL_REGF None > size_regf res then Inr True
      else if length (unit_size s ! BL_GBUF) < de_NUM then Inl IndexError
      else Inr (data_size s BL_GBUF None > size_gbuf res))"

subsection \<open>\<^verbatim>\<open>_innermost_nontrivial_loop\<close>\<close>

text \<open>
  The second component of the tuples that \<^verbatim>\<open>min\<close> compares is an order entry or
  \<^verbatim>\<open>float('inf')\<close>; the third is a loop kind or \<^verbatim>\<open>None\<close> (which Python 2 sorts before
  every number). Tuples compare lexicographically, \<^verbatim>\<open>False < True\<close>.
\<close>

datatype ordv = Ord int | OrdInf

fun ordv_less :: "ordv \<Rightarrow> ordv \<Rightarrow> bool" where
  "ordv_less (Ord a) (Ord b) = (a < b)"
| "ordv_less (Ord a) OrdInf = True"
| "ordv_less OrdInf _ = False"

fun lp_less :: "nat option \<Rightarrow> nat option \<Rightarrow> bool" where
  "lp_less None (Some b) = True"
| "lp_less (Some a) (Some b) = (a < b)"
| "lp_less _ None = False"

fun tuple_less :: "bool \<times> ordv \<times> nat option \<Rightarrow> bool \<times> ordv \<times> nat option \<Rightarrow> bool" where
  "tuple_less (b1, o1, l1) (b2, o2, l2) =
     (b1 < b2 \<or> (b1 = b2 \<and> (ordv_less o1 o2 \<or> (o1 = o2 \<and> lp_less l1 l2))))"

text \<open>Python's \<^verbatim>\<open>min\<close> of its arguments \<open>x, xs\<close>: the first smallest one.\<close>

definition py_min ::
  "bool \<times> ordv \<times> nat option \<Rightarrow> (bool \<times> ordv \<times> nat option) list \<Rightarrow> bool \<times> ordv \<times> nat option" where
  "py_min x xs = fold (\<lambda>y m. if tuple_less y m then y else m) xs x"

definition innermost_nontrivial_loop :: "scheme \<Rightarrow> nat \<Rightarrow> nat option" where
  "innermost_nontrivial_loop s bl_lvl =
     (let order = orders s ! bl_lvl
      in snd (snd (py_min
           (ti s ! bl_lvl = 1, Ord (order ! le_IFM), Some le_IFM)
           [(to s ! bl_lvl = 1, Ord (order ! le_OFM), Some le_OFM),
            (tb s ! bl_lvl = 1, Ord (order ! le_BAT), Some le_BAT),
            (False, OrdInf, None)])))"

subsection \<open>\<^verbatim>\<open>_set_fetch\<close>\<close>

text \<open>
  One iteration of the loop over the blocking levels: \<open>fe\<close> for level \<open>bl\<close>, given the
  rows \<open>prev\<close> appended so far. \<^verbatim>\<open>bl + (innermost_nt_lp != le.BAT)\<close> adds 1 when the
  comparison is true.
\<close>

definition fetch_row :: "scheme \<Rightarrow> int list list \<Rightarrow> nat \<Rightarrow> int list" where
  "fetch_row s prev bl =
     (let innermost_nt_lp = innermost_nontrivial_loop s bl;
          fe = replicate de_NUM 0;
          fe = fe[de_FIL :=
                 (if ti s ! bl * to s ! bl = 1
                  then (if bl > 0 then prev ! (bl - 1) ! de_FIL else 1)
                  else (let bl_start = bl + (if innermost_nt_lp \<noteq> Some le_BAT then 1 else 0)
                        in Util_prod (take bl_start (tb s))))];
          fe = fe[de_IFM :=
                 (if ti s ! bl * tb s ! bl = 1
                  then (if bl > 0 then prev ! (bl - 1) ! de_IFM else 1)
                  else (let bl_start = bl + (if innermost_nt_lp \<noteq> Some le_OFM then 1 else 0)
                        in Util_prod (take bl_start (to s))))];
          fe = fe[de_OFM :=
                 (if to s ! bl * tb s ! bl = 1
                  then (if bl > 0 then prev ! (bl - 1) ! de_OFM else 1)
                  else (let bl_start = bl + (if innermost_nt_lp \<noteq> Some le_IFM then 1 else 0)
                        in 2 * Util_prod (take bl_start (ti s)) - 1))]
      in fe)"

text \<open>
  The loop. \<^verbatim>\<open>_innermost_nontrivial_loop\<close> reads three entries of the order of the level,
  so an order with fewer than \<^verbatim>\<open>le.NUM\<close> entries raises \<^verbatim>\<open>IndexError\<close>. The result
  is the table assigned to \<^verbatim>\<open>self.fetch\<close>.
\<close>

fun set_fetch_loop :: "scheme \<Rightarrow> nat list \<Rightarrow> int list list \<Rightarrow> error + int list list" where
  "set_fetch_loop s [] acc = Inr acc"
| "set_fetch_loop s (bl # bls) acc =
     (if length (orders s ! bl) < le_NUM then Inl IndexError
      else set_fetch_loop s bls (acc @ [fetch_row s acc bl]))"

definition set_fetch :: "scheme \<Rightarrow> error + int list list" where
  "set_fetch s = set_fetch_loop s [0..<BL_NUM] []"

subsection \<open>The constructor\<close>

text \<open>
  Lines 80 to 118: the attributes assigned before the first capacity check. \<open>orders_in\<close>
  is indexed by \<^verbatim>\<open>MemHierEnum\<close>. The attribute \<open>valid\<close> is assigned by the check that
  follows; until then the record holds \<open>False\<close> for it.
\<close>

definition init_attrs ::
  "nested_loop_desc \<Rightarrow> int list \<Rightarrow> int list \<Rightarrow> int list \<Rightarrow> int list list \<Rightarrow> options
     \<Rightarrow> error + scheme" where
  "init_attrs nld tifm tofm tbat orders_in opts =
     (if length orders_in \<le> me_REGF then Inl IndexError
      else if length tifm \<noteq> BL_NUM + 1 then Inl AssertionError
      else if length tofm \<noteq> BL_NUM + 1 then Inl AssertionError
      else if length tbat \<noteq> BL_NUM + 1 then Inl AssertionError
      else if \<not> Util_prod tifm \<ge> loopcnt_ifm nld then Inl AssertionError
      else if \<not> Util_prod tofm \<ge> loopcnt_ofm nld then Inl AssertionError
      else if \<not> Util_prod tbat \<ge> loopcnt_bat nld then Inl AssertionError
      else if length (sw_gbuf_bypass opts) < de_NUM then Inl IndexError
      else Inr \<lparr>
        ti = tifm, to = tofm, tb = tbat,
        orders = [orders_in ! me_GBUF, orders_in ! me_REGF],
        tip = Util_prod tifm, top = Util_prod tofm, tbp = Util_prod tbat,
        unit_size = [usize_gbuf nld, usize_regf nld],
        unit_cnt = set_unit_cnt tifm tofm tbat,
        stored_in_gbuf = map (\<lambda>dce. \<not> sw_gbuf_bypass opts ! dce) [0..<de_NUM],
        valid = False,
        fetch = None,
        unit_ops = None, unit_time = None, unit_access = None,
        part_occ = None, finalized_stats = None,
        ops = None, time = None, access = None \<rparr>)"

text \<open>
  Lines 134 to 141: the loop that decides the residency of the categories that may bypass
  the global buffer, given the fetch table \<open>f\<close>.
\<close>

fun update_stored_in_gbuf ::
  "options \<Rightarrow> int list list \<Rightarrow> nat list \<Rightarrow> bool list \<Rightarrow> error + bool list" where
  "update_stored_in_gbuf opts f [] st = Inr st"
| "update_stored_in_gbuf opts f (dce # dces) st =
     (if st ! dce then update_stored_in_gbuf opts f dces st
      else if \<not> sw_gbuf_bypass opts ! dce then Inl AssertionError
      else if f ! BL_GBUF ! dce < f ! BL_REGF ! dce
           then update_stored_in_gbuf opts f dces (st[dce := True])
           else update_stored_in_gbuf opts f dces st)"

text \<open>Lines 120 to 162.\<close>

definition init_checks ::
  "nested_loop_desc \<Rightarrow> resource \<Rightarrow> options \<Rightarrow> scheme \<Rightarrow> error + scheme" where
  "init_checks nld res opts s0 =
     (case check_size s0 res of
        Inl e \<Rightarrow> Inl e
      | Inr True \<Rightarrow> Inr (s0\<lparr>valid := False\<rparr>)
      | Inr False \<Rightarrow>
         (case set_fetch (s0\<lparr>valid := True\<rparr>) of
            Inl e \<Rightarrow> Inl e
          | Inr f \<Rightarrow>
             (case update_stored_in_gbuf opts f [0..<de_NUM] (stored_in_gbuf s0) of
                Inl e \<Rightarrow> Inl e
              | Inr st \<Rightarrow>
                 (let s2 = s0\<lparr>valid := True, fetch := Some f, stored_in_gbuf := st\<rparr>
                  in case check_size s2 res of
                       Inl e \<Rightarrow> Inl e
                     | Inr True \<Rightarrow> Inr (s2\<lparr>valid := False\<rparr>)
                     | Inr False \<Rightarrow>
                        Inr (s2\<lparr>unit_ops := Some (nested_loop_desc.unit_ops nld),
                                unit_time := Some (nested_loop_desc.unit_time nld),
                                unit_access := Some (nested_loop_desc.unit_access nld),
                                part_occ := Some 1,
                                finalized_stats := Some False,
                                ops := None, time := None, access := None\<rparr>)))))"

definition LoopBlockingScheme_init ::
  "nested_loop_desc \<Rightarrow> int list \<Rightarrow> int list \<Rightarrow> int list \<Rightarrow> int list list \<Rightarrow> resource
     \<Rightarrow> options \<Rightarrow> error + scheme" where
  "LoopBlockingScheme_init nld tifm tofm tbat orders_in res opts =
     (case init_attrs nld tifm tofm tbat orders_in opts of
        Inl e \<Rightarrow> Inl e
      | Inr s0 \<Rightarrow> init_checks nld res opts s0)"

subsection \<open>\<^verbatim>\<open>set_partition_occupation\<close>\<close>

definition set_partition_occupation :: "scheme \<Rightarrow> real \<Rightarrow> error + scheme" where
  "set_partition_occupation s p =
     (if \<not> is_valid s then Inr s
      else case finalized_stats s of
             None \<Rightarrow> Inl AttributeError
           | Some True \<Rightarrow> Inl AssertionError
           | Some False \<Rightarrow> Inr (s\<lparr>part_occ := Some p\<rparr>))"

subsection \<open>\<^verbatim>\<open>_calc_stats\<close>\<close>

definition total_units :: "scheme \<Rightarrow> int list" where
  "total_units s =
     (let tu = replicate de_NUM 0;
          tu = tu[de_FIL := tip s * top s];
          tu = tu[de_IFM := tip s * tbp s];
          tu = tu[de_OFM := top s * tbp s]
      in tu)"

text \<open>
  The four rows of \<open>access\<close> are all overwritten, so the table is built from empty rows.
  \<^verbatim>\<open>zip\<close> stops at the shortest of its arguments, as \<open>zip\<close> does. Indexing
  \<^verbatim>\<open>unit_access\<close> by a hierarchy level it does not have raises \<^verbatim>\<open>IndexError\<close>; a result
  \<open>Inl\<close> does not say what the record holds after the exception.
\<close>

definition calc_stats :: "scheme \<Rightarrow> error + scheme" where
  "calc_stats s =
     (case (unit_ops s, unit_time s, unit_access s, part_occ s, fetch s) of
        (Some u_ops, Some u_time, Some u_access, Some p_occ, Some f) \<Rightarrow>
          (let tu = total_units s;
               lcnt = tip s * top s * tbp s;
               ops' = u_ops * of_int lcnt * p_occ;
               time' = u_time * of_int lcnt
           in if length u_access \<le> me_REGF then Inl IndexError
              else
               (let acc = replicate me_NUM [];
                    acc = acc[me_REGF :=
                            map (\<lambda>(v, t). v * of_int lcnt * of_int t * p_occ)
                                (zip (u_access ! me_REGF) [1, 1, 2 :: int])];
                    acc = acc[me_ITCN :=
                            map (\<lambda>(v, u, f). v * of_int u * of_int f)
                                (zip (u_access ! me_ITCN) (zip tu (f ! BL_REGF)))];
                    acc = acc[me_GBUF :=
                            map (\<lambda>(v, u, f, st). v * of_int u * of_int f * of_bool st)
                                (zip (u_access ! me_GBUF)
                                     (zip tu (zip (f ! BL_REGF) (stored_in_gbuf s))))];
                    acc = acc[me_DRAM :=
                            map (\<lambda>(v, u, f). v * of_int u * of_int f)
                                (zip (u_access ! me_DRAM) (zip tu (f ! BL_GBUF)))]
                in Inr (s\<lparr>ops := Some ops', time := Some time', access := Some acc,
                           finalized_stats := Some True\<rparr>)))
      | _ \<Rightarrow> Inl AttributeError)"

text \<open>The two lines \<^verbatim>\<open>if not self.finalized_stats: self._calc_stats()\<close> of the getters.\<close>

definition ensure_stats :: "scheme \<Rightarrow> error + scheme" where
  "ensure_stats s =
     (case finalized_stats s of
        None \<Rightarrow> Inl AttributeError
      | Some True \<Rightarrow> Inr s
      | Some False \<Rightarrow> calc_stats s)"

subsection \<open>\<^verbatim>\<open>get_access\<close>, \<^verbatim>\<open>get_top_level_fetch\<close>, \<^verbatim>\<open>get_cost\<close>\<close>

text \<open>
  Each getter returns its value and the record, which \<^verbatim>\<open>_calc_stats\<close> may have updated.
  The value \<open>None\<close> is Python's \<^verbatim>\<open>None\<close>.
\<close>

definition get_access :: "scheme \<Rightarrow> error + (real list list option \<times> scheme)" where
  "get_access s =
     (if \<not> is_valid s then Inr (None, s)
      else case ensure_stats s of
             Inl e \<Rightarrow> Inl e
           | Inr s' \<Rightarrow>
              (case access s' of
                 None \<Rightarrow> Inl AttributeError
               | Some a \<Rightarrow> Inr (Some a, s')))"

definition get_top_level_fetch :: "scheme \<Rightarrow> error + (int list option \<times> scheme)" where
  "get_top_level_fetch s =
     (if \<not> is_valid s then Inr (None, s)
      else case ensure_stats s of
             Inl e \<Rightarrow> Inl e
           | Inr s' \<Rightarrow>
              (case fetch s' of
                 None \<Rightarrow> Inl AttributeError
               | Some f \<Rightarrow> Inr (Some (f ! BL_GBUF), s')))"

definition get_cost :: "scheme \<Rightarrow> cost \<Rightarrow> error + (pyfloat \<times> scheme)" where
  "get_cost s cst =
     (if \<not> is_valid s then Inr (PosInf, s)
      else case ensure_stats s of
             Inl e \<Rightarrow> Inl e
           | Inr s' \<Rightarrow>
              (case (ops s', time s', access s') of
                 (Some ops', Some time', Some acc) \<Rightarrow>
                   (let c = 0;
                        c = c + ops' * mac_op cst;
                        access_total = map sum_list acc;
                        c = c + sum_list (map (\<lambda>(mc, ma). mc * ma)
                                              (zip (mem_hier cst) access_total));
                        c = c + time' * unit_static cst
                    in Inr (Float c, s'))
               | _ \<Rightarrow> Inl AttributeError))"

subsection \<open>\<^verbatim>\<open>gen_index\<close>\<close>

text \<open>
  Python list indexing: an index \<open>k\<close> into a list of length \<open>n\<close> is in range from
  \<open>-n\<close> to \<open>n - 1\<close>, and a negative one counts from the end.
\<close>

definition py_index :: "nat \<Rightarrow> int \<Rightarrow> nat option" where
  "py_index n k =
     (if 0 \<le> k \<and> k < int n then Some (nat k)
      else if - int n \<le> k \<and> k < 0 then Some (nat (k + int n))
      else None)"

text \<open>\<^verbatim>\<open>xrange(n)\<close>: the integers from 0 below \<open>n\<close>, none when \<open>n \<le> 0\<close>.\<close>

definition xrange :: "int \<Rightarrow> int list" where
  "xrange n = map int [0..<nat n]"

text \<open>
  \<^verbatim>\<open>_gen_index_single_level\<close>: the list of the tuples it yields. Reading
  \<^verbatim>\<open>rev_order[lpe]\<close> or assigning \<^verbatim>\<open>gens[...]\<close> out of range raises \<^verbatim>\<open>IndexError\<close>; an
  entry of \<open>gens\<close> left \<^verbatim>\<open>None\<close> makes \<^verbatim>\<open>itertools.product\<close> raise \<^verbatim>\<open>TypeError\<close>.
  \<open>product_lists\<close> enumerates in the order of \<^verbatim>\<open>itertools.product\<close>, the last
  component moving fastest.
\<close>

definition gen_index_single_level :: "int list \<Rightarrow> int list \<Rightarrow> error + int list list" where
  "gen_index_single_level t_x order_x =
     (let rev_order = map (\<lambda>o'. int le_NUM - 1 - o') order_x
      in if length rev_order < le_NUM then Inl IndexError
         else case those (map (\<lambda>lpe. py_index le_NUM (rev_order ! lpe)) [0..<le_NUM]) of
                None \<Rightarrow> Inl IndexError
              | Some pos \<Rightarrow>
                 (let gens = fold (\<lambda>lpe gens. gens[pos ! lpe := Some (xrange (t_x ! lpe))])
                                  [0..<le_NUM] (replicate le_NUM None)
                  in case those gens of
                       None \<Rightarrow> Inl TypeError
                     | Some gs \<Rightarrow>
                        Inr (map (\<lambda>idx. map (\<lambda>lpe. idx ! (pos ! lpe)) [0..<le_NUM])
                                 (product_lists gs))))"

text \<open>Lines 322 to 329: merging the indexes of all levels into one index tuple.\<close>

definition merge_idx :: "int list list \<Rightarrow> int list list \<Rightarrow> int list" where
  "merge_idx bl_idx_list bl_cnt_list =
     fold (\<lambda>(bl_idx, bl_cnt) idx.
             map (\<lambda>(i, bi, bc). i + bi * bc) (zip idx (zip bl_idx bl_cnt)))
          (zip bl_idx_list bl_cnt_list) (replicate le_NUM 0)"

text \<open>The factors \<open>t_x\<close> and the unit counts \<open>cnt_x\<close> of one level.\<close>

definition level_t_x :: "scheme \<Rightarrow> nat \<Rightarrow> int list" where
  "level_t_x s bl =
     (let t_x = replicate le_NUM 0;
          t_x = t_x[le_IFM := ti s ! bl];
          t_x = t_x[le_OFM := to s ! bl];
          t_x = t_x[le_BAT := tb s ! bl]
      in t_x)"

definition level_cnt_x :: "scheme \<Rightarrow> nat \<Rightarrow> int list" where
  "level_cnt_x s bl =
     (let cnt_x = replicate le_NUM 1;
          cnt_x = cnt_x[le_IFM := Util_prod (drop (bl + 1) (ti s))];
          cnt_x = cnt_x[le_OFM := Util_prod (drop (bl + 1) (to s))];
          cnt_x = cnt_x[le_BAT := Util_prod (drop (bl + 1) (tb s))]
      in cnt_x)"

text \<open>
  \<^verbatim>\<open>gen_index\<close> is a generator: the result is the list of the tuples it yields, and the
  exception that ends it, if any. \<^verbatim>\<open>itertools.product\<close> runs the three single-level
  generators to their end before the first tuple is yielded; the final assertion is
  checked after the last one.
\<close>

definition gen_index :: "scheme \<Rightarrow> int list list \<times> error option" where
  "gen_index s =
     (let bl_gbuf = BL_GBUF;
          bl_regf = BL_REGF
      in case gen_index_single_level (level_t_x s bl_gbuf) (orders s ! bl_gbuf) of
           Inl e \<Rightarrow> ([], Some e)
         | Inr g0 \<Rightarrow>
       (case gen_index_single_level (level_t_x s bl_regf) (orders s ! bl_regf) of
           Inl e \<Rightarrow> ([], Some e)
         | Inr g1 \<Rightarrow>
       (case gen_index_single_level (level_t_x s 2) [0, 1, 2] of
           Inl e \<Rightarrow> ([], Some e)
         | Inr g2 \<Rightarrow>
          (let bl_cnt_list = [level_cnt_x s bl_gbuf, level_cnt_x s bl_regf,
                              replicate le_NUM 1];
               idxs = map (\<lambda>bl_idx_list. merge_idx bl_idx_list bl_cnt_list)
                          (product_lists [g0, g1, g2])
           in (idxs, if int (length idxs) = tip s * top s * tbp s then None
                     else Some AssertionError)))))"

section \<open>Example schemes\<close>

text \<open>
  A layer with 4 input maps, 3 output maps and a batch of 1, blocked as \<open>ti = (2, 2, 1)\<close>,
  \<open>to = (2, 2, 1)\<close>, \<open>tb = (1, 1, 1)\<close>, every category allowed to bypass the global
  buffer. The three resource descriptors make the scheme valid, invalid at the first
  capacity check, and invalid at the second one.
\<close>

definition ex_nld :: nested_loop_desc where
  "ex_nld = \<lparr>loopcnt_ifm = 4, loopcnt_ofm = 3, loopcnt_bat = 1,
     usize_gbuf = [1, 1, 1], usize_regf = [1, 1, 1],
     unit_ops = 2, unit_time = 3,
     unit_access = [[1, 2, 3], [4, 5, 6], [7, 8, 9], [10, 11, 12]]\<rparr>"

definition ex_orders :: "int list list" where
  "ex_orders = [[], [0, 1, 2], [], [0, 1, 2]]"

definition ex_opts :: options where
  "ex_opts = \<lparr>sw_gbuf_bypass = [True, True, True]\<rparr>"

definition ex_res :: resource where
  "ex_res = \<lparr>size_regf = 8, size_gbuf = 10\<rparr>"

definition ex_res_regf :: resource where
  "ex_res_regf = \<lparr>size_regf = 2, size_gbuf = 10\<rparr>"

definition ex_res_gbuf :: resource where
  "ex_res_gbuf = \<lparr>size_regf = 8, size_gbuf = 3\<rparr>"

text \<open>The record before the first capacity check, which is also the one that fails it.\<close>

definition ex_attrs :: scheme where
  "ex_attrs = \<lparr>ti = [2, 2, 1], to = [2, 2, 1], tb = [1, 1, 1],
     orders = [[0, 1, 2], [0, 1, 2]], tip = 4, top = 4, tbp = 1,
     unit_size = [[1, 1, 1], [1, 1, 1]],
     unit_cnt = [[4, 2, 2], [1, 1, 1]],
     stored_in_gbuf = [False, False, False], valid = False, fetch = None,
     unit_ops = None, unit_time = None, unit_access = None,
     part_occ = None, finalized_stats = None, ops = None, time = None,
     access = None\<rparr>"

text \<open>The record that fails the second capacity check.\<close>

definition ex_invalid :: scheme where
  "ex_invalid = ex_attrs\<lparr>stored_in_gbuf := [False, True, True],
     fetch := Some [[1, 2, 1], [1, 4, 3]]\<rparr>"

text \<open>The valid record.\<close>

definition ex_scheme :: scheme where
  "ex_scheme = ex_attrs\<lparr>stored_in_gbuf := [False, True, True], valid := True,
     fetch := Some [[1, 2, 1], [1, 4, 3]], unit_ops := Some 2, unit_time := Some 3,
     unit_access := Some [[1, 2, 3], [4, 5, 6], [7, 8, 9], [10, 11, 12]],
     part_occ := Some 1, finalized_stats := Some False\<rparr>"

text \<open>A cost model, and the valid record after its statistics have been computed.\<close>

definition ex_cost :: cost where
  "ex_cost = \<lparr>mac_op = 1, mem_hier = [200, 6, 0, 1], unit_static = 5\<rparr>"

definition ex_finalized :: scheme where
  "ex_finalized = ex_scheme\<lparr>finalized_stats := Some True, ops := Some 32, time := Some 48,
     access := Some [[16, 16, 12], [0, 80, 72], [112, 128, 108], [160, 176, 384]]\<rparr>"

text \<open>
  The fetch product as claim C1 words it: the product of the factors of the unrelated loop
  up to and including level \<open>bl\<close> if and only if the unrelated loop is the innermost
  non-trivial loop of the level, and one level short otherwise.
\<close>

definition claimed_fetch_product :: "scheme \<Rightarrow> nat \<Rightarrow> nat \<Rightarrow> int list \<Rightarrow> int" where
  "claimed_fetch_product s bl unrelated t_unrelated =
     (if innermost_nontrivial_loop s bl = Some unrelated
      then Util_prod (take (bl + 1) t_unrelated)
      else Util_prod (take bl t_unrelated))"

text \<open>
  The rectangular range of index tuples \<open>(ifm, ofm, bat)\<close> with components from the three
  given sets.
\<close>

definition triples :: "int set \<Rightarrow> int set \<Rightarrow> int set \<Rightarrow> int list set" where
  "triples A B C = {[x, y, z] | x y z. x \<in> A \<and> y \<in> B \<and> z \<in> C}"

section \<open>Basic facts\<close>

lemmas enum_defs =
  de_FIL_def de_IFM_def de_OFM_def de_NUM_def
  le_IFM_def le_OFM_def le_BAT_def le_NUM_def
  me_DRAM_def me_GBUF_def me_ITCN_def me_REGF_def me_NUM_def
  BL_GBUF_def BL_REGF_def BL_NUM_def

lemma foldl_mult_prod_list: "foldl (*) a xs = a * prod_list (xs :: int list)"
  by (induction xs arbitrary: a) (simp_all add: mult.assoc)

lemma Util_prod_prod_list: "Util_prod xs = prod_list xs"
  by (simp add: Util_prod_def foldl_mult_prod_list)

lemma init_attrs_InrD:
  assumes "init_attrs nld tifm tofm tbat orders_in opts = Inr s0"
  shows "ti s0 = tifm" "to s0 = tofm" "tb s0 = tbat"
    "orders s0 = [orders_in ! me_GBUF, orders_in ! me_REGF]"
    "tip s0 = Util_prod tifm" "top s0 = Util_prod tofm" "tbp s0 = Util_prod tbat"
    "unit_size s0 = [usize_gbuf nld, usize_regf nld]"
    "unit_cnt s0 = set_unit_cnt tifm tofm tbat"
    "stored_in_gbuf s0 = map (\<lambda>dce. \<not> sw_gbuf_bypass opts ! dce) [0..<de_NUM]"
    "valid s0 = False" "fetch s0 = None" "finalized_stats s0 = None"
    "length tifm = 3" "length tofm = 3" "length tbat = 3"
    "length (sw_gbuf_bypass opts) \<ge> de_NUM"
  using assms unfolding init_attrs_def
  by (auto simp: BL_NUM_def split: if_splits)

lemma init_checks_cases:
  assumes "init_checks nld res opts s0 = Inr s"
  obtains
    (first) "check_size s0 res = Inr True" "s = s0\<lparr>valid := False\<rparr>"
  | (second) f st where "check_size s0 res = Inr False"
      "set_fetch (s0\<lparr>valid := True\<rparr>) = Inr f"
      "update_stored_in_gbuf opts f [0..<de_NUM] (stored_in_gbuf s0) = Inr st"
      "check_size (s0\<lparr>valid := True, fetch := Some f, stored_in_gbuf := st\<rparr>) res = Inr True"
      "s = s0\<lparr>valid := False, fetch := Some f, stored_in_gbuf := st\<rparr>"
  | (ok) f st where "check_size s0 res = Inr False"
      "set_fetch (s0\<lparr>valid := True\<rparr>) = Inr f"
      "update_stored_in_gbuf opts f [0..<de_NUM] (stored_in_gbuf s0) = Inr st"
      "check_size (s0\<lparr>valid := True, fetch := Some f, stored_in_gbuf := st\<rparr>) res = Inr False"
      "s = s0\<lparr>valid := True, fetch := Some f, stored_in_gbuf := st,
              unit_ops := Some (nested_loop_desc.unit_ops nld),
              unit_time := Some (nested_loop_desc.unit_time nld),
              unit_access := Some (nested_loop_desc.unit_access nld),
              part_occ := Some 1, finalized_stats := Some False,
              ops := None, time := None, access := None\<rparr>"
proof (cases "check_size s0 res")
  case (Inl e)
  with assms show ?thesis by (simp add: init_checks_def)
next
  case c1: (Inr b1)
  show ?thesis
  proof (cases b1)
    case True
    with c1 assms have "s = s0\<lparr>valid := False\<rparr>" by (simp add: init_checks_def)
    with c1 True show ?thesis by (simp add: first)
  next
    case False
    with c1 have c1: "check_size s0 res = Inr False" by simp
    show ?thesis
    proof (cases "set_fetch (s0\<lparr>valid := True\<rparr>)")
      case (Inl e)
      with c1 assms show ?thesis by (simp add: init_checks_def)
    next
      case f: (Inr f)
      show ?thesis
      proof (cases "update_stored_in_gbuf opts f [0..<de_NUM] (stored_in_gbuf s0)")
        case (Inl e)
        with c1 f assms show ?thesis by (simp add: init_checks_def)
      next
        case st: (Inr st)
        show ?thesis
        proof (cases "check_size (s0\<lparr>valid := True, fetch := Some f, stored_in_gbuf := st\<rparr>) res")
          case (Inl e)
          with c1 f st assms show ?thesis by (simp add: init_checks_def)
        next
          case c2: (Inr b2)
          show ?thesis
          proof (cases b2)
            case True
            with c1 f st c2 assms
            have "s = s0\<lparr>valid := False, fetch := Some f, stored_in_gbuf := st\<rparr>"
              by (auto simp add: init_checks_def)
            with c1 f st c2 True show ?thesis by (simp add: second)
          next
            case False
            with c1 f st c2 assms
            have "s = s0\<lparr>valid := True, fetch := Some f, stored_in_gbuf := st,
              unit_ops := Some (nested_loop_desc.unit_ops nld),
              unit_time := Some (nested_loop_desc.unit_time nld),
              unit_access := Some (nested_loop_desc.unit_access nld),
              part_occ := Some 1, finalized_stats := Some False,
              ops := None, time := None, access := None\<rparr>"
              by (auto simp add: init_checks_def)
            with c1 f st c2 False show ?thesis by (simp add: ok)
          qed
        qed
      qed
    qed
  qed
qed

lemma init_cases:
  assumes "LoopBlockingScheme_init nld tifm tofm tbat orders_in res opts = Inr s"
  obtains s0 where "init_attrs nld tifm tofm tbat orders_in opts = Inr s0"
     "init_checks nld res opts s0 = Inr s"
  using assms unfolding LoopBlockingScheme_init_def by (auto split: sum.splits)

lemma data_size_dce_frame [simp]:
  "data_size_dce (s\<lparr>valid := v\<rparr>) = data_size_dce s"
  "data_size_dce (s\<lparr>fetch := f\<rparr>) = data_size_dce s"
  "data_size_dce (s\<lparr>unit_ops := a\<rparr>) = data_size_dce s"
  "data_size_dce (s\<lparr>unit_time := b\<rparr>) = data_size_dce s"
  "data_size_dce (s\<lparr>unit_access := c\<rparr>) = data_size_dce s"
  "data_size_dce (s\<lparr>part_occ := d\<rparr>) = data_size_dce s"
  "data_size_dce (s\<lparr>finalized_stats := e\<rparr>) = data_size_dce s"
  "data_size_dce (s\<lparr>ops := g\<rparr>) = data_size_dce s"
  "data_size_dce (s\<lparr>time := h\<rparr>) = data_size_dce s"
  "data_size_dce (s\<lparr>access := i\<rparr>) = data_size_dce s"
  by (simp_all add: data_size_dce_def fun_eq_iff)

lemma data_size_frame [simp]:
  "data_size (s\<lparr>valid := v\<rparr>) bl dco = data_size s bl dco"
  "data_size (s\<lparr>fetch := f\<rparr>) bl dco = data_size s bl dco"
  "data_size (s\<lparr>unit_ops := a\<rparr>) bl dco = data_size s bl dco"
  "data_size (s\<lparr>unit_time := b\<rparr>) bl dco = data_size s bl dco"
  "data_size (s\<lparr>unit_access := c\<rparr>) bl dco = data_size s bl dco"
  "data_size (s\<lparr>part_occ := d\<rparr>) bl dco = data_size s bl dco"
  "data_size (s\<lparr>finalized_stats := e\<rparr>) bl dco = data_size s bl dco"
  "data_size (s\<lparr>ops := g\<rparr>) bl dco = data_size s bl dco"
  "data_size (s\<lparr>time := h\<rparr>) bl dco = data_size s bl dco"
  "data_size (s\<lparr>access := i\<rparr>) bl dco = data_size s bl dco"
  by (simp_all add: data_size_def split: option.splits)

lemma check_size_False:
  "check_size s res = Inr False \<Longrightarrow>
     data_size s BL_REGF None \<le> size_regf res \<and> data_size s BL_GBUF None \<le> size_gbuf res"
  unfolding check_size_def by (auto split: if_splits)

lemma check_size_True:
  "check_size s res = Inr True \<Longrightarrow>
     data_size s BL_REGF None > size_regf res \<or> data_size s BL_GBUF None > size_gbuf res"
  unfolding check_size_def by (auto split: if_splits)

lemma ex_init:
  "LoopBlockingScheme_init ex_nld [2, 2, 1] [2, 2, 1] [1, 1, 1] ex_orders ex_res ex_opts
     = Inr ex_scheme"
  by code_simp

lemma ex_init_regf:
  "LoopBlockingScheme_init ex_nld [2, 2, 1] [2, 2, 1] [1, 1, 1] ex_orders ex_res_regf ex_opts
     = Inr ex_attrs"
  by code_simp

lemma ex_init_gbuf:
  "LoopBlockingScheme_init ex_nld [2, 2, 1] [2, 2, 1] [1, 1, 1] ex_orders ex_res_gbuf ex_opts
     = Inr ex_invalid"
  by code_simp

section \<open>Capacity of a valid scheme\<close>

text \<open>
  Claim C2. For every scheme record that the constructor returns and on which
  \<^verbatim>\<open>is_valid()\<close> is true, the total data size at the REGF level is at most the REGF capacity
  of the resource descriptor, and the total data size at the GBUF level, computed with the
  final \<open>stored_in_gbuf\<close> flags, is at most the GBUF capacity.
\<close>

theorem valid_sizes_within_capacity:
  assumes "LoopBlockingScheme_init nld tifm tofm tbat orders_in res opts = Inr s"
    and "is_valid s"
  shows "data_size s BL_REGF None \<le> size_regf res \<and> data_size s BL_GBUF None \<le> size_gbuf res"
proof -
  from assms(1) obtain s0 where a: "init_attrs nld tifm tofm tbat orders_in opts = Inr s0"
    and c: "init_checks nld res opts s0 = Inr s" by (rule init_cases)
  from c show ?thesis
  proof (cases rule: init_checks_cases)
    case first
    with assms(2) show ?thesis by (simp add: is_valid_def)
  next
    case (second f st)
    with assms(2) show ?thesis by (simp add: is_valid_def)
  next
    case (ok f st)
    from check_size_False[OF ok(4)] show ?thesis
      unfolding ok(5) by simp
  qed
qed

theorem valid_sizes_within_capacity_witness:
  "LoopBlockingScheme_init ex_nld [2, 2, 1] [2, 2, 1] [1, 1, 1] ex_orders ex_res ex_opts
     = Inr ex_scheme
   \<and> is_valid ex_scheme
   \<and> data_size ex_scheme BL_REGF None \<le> size_regf ex_res
   \<and> data_size ex_scheme BL_GBUF None \<le> size_gbuf ex_res"
proof -
  have v: "is_valid ex_scheme" by code_simp
  from valid_sizes_within_capacity[OF ex_init v] ex_init v show ?thesis by simp
qed

lemma ex_get_access:
  "get_access ex_scheme
     = Inr (Some [[16, 16, 12], [0, 80, 72], [112, 128, 108], [160, 176, 384]], ex_finalized)"
  by code_simp

lemma ex_init_attrs:
  "init_attrs ex_nld [2, 2, 1] [2, 2, 1] [1, 1, 1] ex_orders ex_opts = Inr ex_attrs"
  by code_simp

section \<open>Queries on an invalid scheme\<close>

text \<open>
  Claim C5. On every scheme record on which \<^verbatim>\<open>is_valid()\<close> is false, \<^verbatim>\<open>get_cost\<close> returns
  \<^verbatim>\<open>float('inf')\<close> and \<^verbatim>\<open>get_access\<close> returns \<^verbatim>\<open>None\<close>, and both leave the record as it is:
  no statistics are computed. In particular, when the REGF-level data size of the record
  exceeds the REGF capacity at the first capacity check, the constructor returns this
  record, it is invalid, and the two getters return the sentinels.
\<close>

theorem invalid_scheme_sentinels:
  "(\<not> is_valid s \<longrightarrow> get_cost s cst = Inr (PosInf, s) \<and> get_access s = Inr (None, s))
   \<and> (init_attrs nld tifm tofm tbat orders_in opts = Inr s0
        \<and> de_NUM \<le> length (usize_regf nld)
        \<and> size_regf res < data_size s0 BL_REGF None
      \<longrightarrow> LoopBlockingScheme_init nld tifm tofm tbat orders_in res opts = Inr s0
          \<and> \<not> is_valid s0
          \<and> get_cost s0 cst = Inr (PosInf, s0) \<and> get_access s0 = Inr (None, s0))"
proof -
  have a: "get_cost s' cst = Inr (PosInf, s') \<and> get_access s' = Inr (None, s')"
    if "\<not> is_valid s'" for s'
    using that by (simp add: get_cost_def get_access_def)
  have b: "LoopBlockingScheme_init nld tifm tofm tbat orders_in res opts = Inr s0
          \<and> \<not> is_valid s0"
    if h: "init_attrs nld tifm tofm tbat orders_in opts = Inr s0"
       "de_NUM \<le> length (usize_regf nld)"
       "size_regf res < data_size s0 BL_REGF None"
  proof -
    have v: "valid s0 = False" and u: "unit_size s0 = [usize_gbuf nld, usize_regf nld]"
      using init_attrs_InrD[OF h(1)] by simp_all
    have "check_size s0 res = Inr True"
      using h(2,3) u by (simp add: check_size_def BL_REGF_def)
    moreover have "s0\<lparr>valid := valid s0\<rparr> = s0" by simp
    ultimately show ?thesis
      using h(1) v by (simp add: LoopBlockingScheme_init_def init_checks_def is_valid_def)
  qed
  show ?thesis using a b by blast
qed

theorem invalid_scheme_sentinels_witness:
  "\<not> is_valid ex_attrs
   \<and> init_attrs ex_nld [2, 2, 1] [2, 2, 1] [1, 1, 1] ex_orders ex_opts = Inr ex_attrs
   \<and> de_NUM \<le> length (usize_regf ex_nld)
   \<and> size_regf ex_res_regf < data_size ex_attrs BL_REGF None
   \<and> LoopBlockingScheme_init ex_nld [2, 2, 1] [2, 2, 1] [1, 1, 1] ex_orders ex_res_regf ex_opts
       = Inr ex_attrs
   \<and> get_cost ex_attrs ex_cost = Inr (PosInf, ex_attrs)
   \<and> get_access ex_attrs = Inr (None, ex_attrs)"
proof -
  have 1: "\<not> is_valid ex_attrs" by code_simp
  have 2: "de_NUM \<le> length (usize_regf ex_nld)" by code_simp
  have 3: "size_regf ex_res_regf < data_size ex_attrs BL_REGF None" by code_simp
  from invalid_scheme_sentinels[of ex_attrs ex_cost ex_nld "[2, 2, 1]" "[2, 2, 1]" "[1, 1, 1]"
      ex_orders ex_opts ex_attrs ex_res_regf] 1 2 3 ex_init_attrs
  show ?thesis by simp
qed

section \<open>Setting the partition occupation\<close>

text \<open>
  Claim C9, as the code has it. \<^verbatim>\<open>set_partition_occupation\<close> does nothing on an invalid
  record, and fails its assertion on a valid record whose statistics have been finalized.
  On a valid record whose statistics have not been finalized it stores the value, and it
  may be called again: a later call succeeds as well and overwrites the value of the
  earlier one.
\<close>

theorem set_partition_occupation_cases:
  "(\<not> is_valid s \<longrightarrow> set_partition_occupation s p = Inr s)
   \<and> (is_valid s \<and> finalized_stats s = Some True
        \<longrightarrow> set_partition_occupation s p = Inl AssertionError)
   \<and> (is_valid s \<and> finalized_stats s = Some False
        \<longrightarrow> set_partition_occupation s p = Inr (s\<lparr>part_occ := Some p\<rparr>)
            \<and> set_partition_occupation (s\<lparr>part_occ := Some p\<rparr>) q
                = Inr (s\<lparr>part_occ := Some q\<rparr>))"
  by (simp add: set_partition_occupation_def is_valid_def)

theorem set_partition_occupation_cases_witness:
  "\<not> is_valid ex_attrs \<and> set_partition_occupation ex_attrs (1 / 2) = Inr ex_attrs
   \<and> is_valid ex_finalized \<and> finalized_stats ex_finalized = Some True
   \<and> set_partition_occupation ex_finalized (1 / 2) = Inl AssertionError
   \<and> is_valid ex_scheme \<and> finalized_stats ex_scheme = Some False
   \<and> set_partition_occupation ex_scheme (1 / 2) = Inr (ex_scheme\<lparr>part_occ := Some (1 / 2)\<rparr>)
   \<and> set_partition_occupation (ex_scheme\<lparr>part_occ := Some (1 / 2)\<rparr>) (1 / 4)
       = Inr (ex_scheme\<lparr>part_occ := Some (1 / 4)\<rparr>)"
proof -
  have 1: "\<not> is_valid ex_attrs" by code_simp
  have 2: "is_valid ex_finalized \<and> finalized_stats ex_finalized = Some True" by code_simp
  have 3: "is_valid ex_scheme \<and> finalized_stats ex_scheme = Some False" by code_simp
  from set_partition_occupation_cases[of ex_attrs "1 / 2" "1 / 4"]
       set_partition_occupation_cases[of ex_finalized "1 / 2" "1 / 4"]
       set_partition_occupation_cases[of ex_scheme "1 / 2" "1 / 4"] 1 2 3
  show ?thesis by simp
qed

text \<open>
  The claim as stated says that a second call before finalization is not permitted. On the
  valid example record a first call stores 1/2, the statistics are still not finalized, and
  a second call succeeds and stores 1/4.
\<close>

theorem set_partition_occupation_twice_counterexample:
  "LoopBlockingScheme_init ex_nld [2, 2, 1] [2, 2, 1] [1, 1, 1] ex_orders ex_res ex_opts
     = Inr ex_scheme
   \<and> set_partition_occupation ex_scheme (1 / 2) = Inr (ex_scheme\<lparr>part_occ := Some (1 / 2)\<rparr>)
   \<and> finalized_stats (ex_scheme\<lparr>part_occ := Some (1 / 2)\<rparr>) = Some False
   \<and> set_partition_occupation (ex_scheme\<lparr>part_occ := Some (1 / 2)\<rparr>) (1 / 4)
       = Inr (ex_scheme\<lparr>part_occ := Some (1 / 4)\<rparr>)
   \<and> part_occ (ex_scheme\<lparr>part_occ := Some (1 / 4)\<rparr>) = Some (1 / 4)"
proof -
  have "is_valid ex_scheme \<and> finalized_stats ex_scheme = Some False" by code_simp
  then show ?thesis
    using ex_init by (simp add: set_partition_occupation_def is_valid_def)
qed

section \<open>Residency in the global buffer\<close>

lemma update_stored_in_gbuf_spec:
  "update_stored_in_gbuf opts f dces st = Inr st' \<Longrightarrow>
     length st' = length st \<and>
     (\<forall>c<length st. st' ! c
        = (st ! c \<or> (c \<in> set dces \<and> f ! BL_GBUF ! c < f ! BL_REGF ! c)))"
proof (induction dces arbitrary: st)
  case Nil
  then show ?case by simp
next
  case (Cons dce dces)
  show ?case
  proof (cases "st ! dce")
    case True
    with Cons.prems have "update_stored_in_gbuf opts f dces st = Inr st'" by simp
    from Cons.IH[OF this] True show ?thesis by auto
  next
    case False
    show ?thesis
    proof (cases "f ! BL_GBUF ! dce < f ! BL_REGF ! dce")
      case True
      with False Cons.prems
      have "update_stored_in_gbuf opts f dces (st[dce := True]) = Inr st'"
        by (simp split: if_splits)
      from Cons.IH[OF this]
      have l: "length st' = length st"
        and h: "\<And>c. c < length st \<Longrightarrow> st' ! c
          = (st[dce := True] ! c \<or> (c \<in> set dces \<and> f ! BL_GBUF ! c < f ! BL_REGF ! c))"
        by simp_all
      have "st' ! c = (st ! c \<or> (c \<in> set (dce # dces) \<and> f ! BL_GBUF ! c < f ! BL_REGF ! c))"
        if "c < length st" for c
      proof (cases "c = dce")
        case e: True
        with that True False h[OF that] show ?thesis by simp
      next
        case ne: False
        with that h[OF that] show ?thesis by simp
      qed
      with l show ?thesis by blast
    next
      case nlt: False
      with False Cons.prems have "update_stored_in_gbuf opts f dces st = Inr st'"
        by (simp split: if_splits)
      from Cons.IH[OF this] nlt False show ?thesis by auto
    qed
  qed
qed

lemma calc_stats_stored_in_gbuf:
  "calc_stats t = Inr t' \<Longrightarrow> stored_in_gbuf t' = stored_in_gbuf t"
  unfolding calc_stats_def
  by (auto simp: Let_def split: option.splits if_splits)

lemma ensure_stats_stored_in_gbuf:
  "ensure_stats t = Inr t' \<Longrightarrow> stored_in_gbuf t' = stored_in_gbuf t"
  unfolding ensure_stats_def
  by (auto dest: calc_stats_stored_in_gbuf split: option.splits bool.splits)

lemma init_stored_in_gbuf_nth:
  "c < de_NUM \<Longrightarrow> map (\<lambda>dce. \<not> sw ! dce) [0..<de_NUM] ! c = (\<not> sw ! c)"
  by simp

text \<open>
  Claim C6. For every scheme record the constructor returns and every data category \<open>c\<close>:
  before the first capacity check \<open>stored_in_gbuf[c]\<close> is false exactly when the options
  permit bypassing \<open>c\<close>; a flag that starts true is true in the returned record; a flag
  that differs from its initial value has been flipped after the fetch table was computed,
  with the GBUF-level fetch count strictly smaller than the REGF-level one; and
  \<^verbatim>\<open>set_partition_occupation\<close>, \<^verbatim>\<open>get_access\<close>, \<^verbatim>\<open>get_top_level_fetch\<close> and \<^verbatim>\<open>get_cost\<close>, the
  methods that update a record, leave the flags of any record as they are.
\<close>

theorem stored_in_gbuf_monotone:
  assumes "LoopBlockingScheme_init nld tifm tofm tbat orders_in res opts = Inr s"
    and "c < de_NUM"
  shows "\<exists>s0. init_attrs nld tifm tofm tbat orders_in opts = Inr s0
     \<and> stored_in_gbuf s0 ! c = (\<not> sw_gbuf_bypass opts ! c)
     \<and> (stored_in_gbuf s0 ! c \<longrightarrow> stored_in_gbuf s ! c)
     \<and> (stored_in_gbuf s ! c \<noteq> stored_in_gbuf s0 ! c
          \<longrightarrow> (\<exists>f. fetch s = Some f \<and> f ! BL_GBUF ! c < f ! BL_REGF ! c))
     \<and> (\<forall>f. fetch s = Some f
          \<longrightarrow> stored_in_gbuf s ! c
              = (\<not> sw_gbuf_bypass opts ! c \<or> f ! BL_GBUF ! c < f ! BL_REGF ! c))
     \<and> (\<forall>t p t'. set_partition_occupation t p = Inr t'
          \<longrightarrow> stored_in_gbuf t' = stored_in_gbuf t)
     \<and> (\<forall>t a t'. get_access t = Inr (a, t') \<longrightarrow> stored_in_gbuf t' = stored_in_gbuf t)
     \<and> (\<forall>t a t'. get_top_level_fetch t = Inr (a, t')
          \<longrightarrow> stored_in_gbuf t' = stored_in_gbuf t)
     \<and> (\<forall>t cst a t'. get_cost t cst = Inr (a, t')
          \<longrightarrow> stored_in_gbuf t' = stored_in_gbuf t)"
proof -
  from assms(1) obtain s0 where a: "init_attrs nld tifm tofm tbat orders_in opts = Inr s0"
    and ck: "init_checks nld res opts s0 = Inr s" by (rule init_cases)
  note d = init_attrs_InrD[OF a]
  have i: "stored_in_gbuf s0 ! c = (\<not> sw_gbuf_bypass opts ! c)"
    using assms(2) by (simp add: d(10))
  have len: "c < length (stored_in_gbuf s0)"
    using assms(2) by (simp add: d(10))
  have cs: "c \<in> set [0..<de_NUM]" using assms(2) by simp
  have m: "(stored_in_gbuf s0 ! c \<longrightarrow> stored_in_gbuf s ! c)
     \<and> (stored_in_gbuf s ! c \<noteq> stored_in_gbuf s0 ! c
          \<longrightarrow> (\<exists>f. fetch s = Some f \<and> f ! BL_GBUF ! c < f ! BL_REGF ! c))
     \<and> (\<forall>f. fetch s = Some f
          \<longrightarrow> stored_in_gbuf s ! c
              = (stored_in_gbuf s0 ! c \<or> f ! BL_GBUF ! c < f ! BL_REGF ! c))"
    using ck
  proof (cases rule: init_checks_cases)
    case first
    then show ?thesis by (simp add: d(12))
  next
    case (second f st)
    from update_stored_in_gbuf_spec[OF second(3)] len cs
    have "st ! c = (stored_in_gbuf s0 ! c \<or> f ! BL_GBUF ! c < f ! BL_REGF ! c)"
      by blast
    then show ?thesis by (auto simp: second(5))
  next
    case (ok f st)
    from update_stored_in_gbuf_spec[OF ok(3)] len cs
    have "st ! c = (stored_in_gbuf s0 ! c \<or> f ! BL_GBUF ! c < f ! BL_REGF ! c)"
      by blast
    then show ?thesis by (auto simp: ok(5))
  qed
  have f1: "stored_in_gbuf t' = stored_in_gbuf t"
    if "set_partition_occupation t p = Inr t'" for t p t'
    using that unfolding set_partition_occupation_def
    by (auto split: if_splits option.splits bool.splits)
  have f2: "stored_in_gbuf t' = stored_in_gbuf t" if "get_access t = Inr (a, t')" for t a t'
    using that unfolding get_access_def
    by (auto dest: ensure_stats_stored_in_gbuf split: if_splits sum.splits option.splits)
  have f3: "stored_in_gbuf t' = stored_in_gbuf t"
    if "get_top_level_fetch t = Inr (a, t')" for t a t'
    using that unfolding get_top_level_fetch_def
    by (auto dest: ensure_stats_stored_in_gbuf split: if_splits sum.splits option.splits)
  have f4: "stored_in_gbuf t' = stored_in_gbuf t"
    if "get_cost t cst = Inr (a, t')" for t cst a t'
    using that unfolding get_cost_def
    by (auto simp: Let_def dest: ensure_stats_stored_in_gbuf
        split: if_splits sum.splits option.splits)
  from a i m f1 f2 f3 f4 show ?thesis by (intro exI[of _ s0]) (simp only: i, blast)
qed

theorem stored_in_gbuf_monotone_witness:
  "LoopBlockingScheme_init ex_nld [2, 2, 1] [2, 2, 1] [1, 1, 1] ex_orders ex_res ex_opts
     = Inr ex_scheme
   \<and> (1 :: nat) < de_NUM
   \<and> init_attrs ex_nld [2, 2, 1] [2, 2, 1] [1, 1, 1] ex_orders ex_opts = Inr ex_attrs
   \<and> sw_gbuf_bypass ex_opts ! 1
   \<and> \<not> stored_in_gbuf ex_attrs ! 1
   \<and> stored_in_gbuf ex_scheme ! 1
   \<and> (\<exists>f. fetch ex_scheme = Some f \<and> f ! BL_GBUF ! 1 < f ! BL_REGF ! 1)"
proof -
  have c: "(1 :: nat) < de_NUM" by code_simp
  have b: "sw_gbuf_bypass ex_opts ! 1" by code_simp
  have n: "stored_in_gbuf ex_scheme ! 1 \<noteq> stored_in_gbuf ex_attrs ! 1" by code_simp
  from stored_in_gbuf_monotone[OF ex_init c] obtain s0 where
    a: "init_attrs ex_nld [2, 2, 1] [2, 2, 1] [1, 1, 1] ex_orders ex_opts = Inr s0"
    and i: "stored_in_gbuf s0 ! 1 = (\<not> sw_gbuf_bypass ex_opts ! 1)"
    and f: "stored_in_gbuf ex_scheme ! 1 \<noteq> stored_in_gbuf s0 ! 1
          \<longrightarrow> (\<exists>f. fetch ex_scheme = Some f \<and> f ! BL_GBUF ! 1 < f ! BL_REGF ! 1)"
    by blast
  from a ex_init_attrs have e: "s0 = ex_attrs" by simp
  from i b e have "\<not> stored_in_gbuf ex_attrs ! 1" by simp
  with n f e c b ex_init ex_init_attrs show ?thesis by simp
qed

section \<open>Data sizes and the residency flags\<close>

lemma data_size_cong:
  assumes "unit_cnt a = unit_cnt b" "unit_size a = unit_size b"
    "stored_in_gbuf a = stored_in_gbuf b"
  shows "data_size a = data_size b"
proof -
  have "data_size_dce a = data_size_dce b"
    using assms by (simp add: data_size_dce_def fun_eq_iff)
  then show ?thesis unfolding data_size_def by simp
qed

lemma data_size_dce_regf_flags:
  "data_size_dce (s\<lparr>stored_in_gbuf := flags\<rparr>) BL_REGF = data_size_dce s BL_REGF"
  by (simp add: data_size_dce_def fun_eq_iff BL_REGF_def BL_GBUF_def)

lemma data_size_regf_flags:
  "data_size (s\<lparr>stored_in_gbuf := flags\<rparr>) BL_REGF dce = data_size s BL_REGF dce"
  by (simp add: data_size_def data_size_dce_regf_flags split: option.splits)

lemma data_size_gbuf_flip_mono:
  assumes "0 \<le> unit_cnt s ! BL_GBUF ! c * unit_size s ! BL_GBUF ! c"
  shows "data_size s BL_GBUF None
     \<le> data_size (s\<lparr>stored_in_gbuf := (stored_in_gbuf s)[c := True]\<rparr>) BL_GBUF None"
proof -
  have "data_size_dce s BL_GBUF d
     \<le> data_size_dce (s\<lparr>stored_in_gbuf := (stored_in_gbuf s)[c := True]\<rparr>) BL_GBUF d" for d
  proof (cases "d = c \<and> c < length (stored_in_gbuf s)")
    case True
    with assms show ?thesis by (simp add: data_size_dce_def)
  next
    case False
    then have "(stored_in_gbuf s)[c := True] ! d = stored_in_gbuf s ! d"
      by (cases "d = c") (simp_all add: list_update_beyond)
    then show ?thesis by (simp add: data_size_dce_def)
  qed
  then show ?thesis
    unfolding data_size_def by (simp add: sum_list_mono)
qed

lemma prod_list_pos: "(\<forall>x\<in>set xs. 0 < x) \<Longrightarrow> 0 < prod_list (xs :: int list)"
  by (induction xs) simp_all

lemma Util_prod_drop_pos: "(\<forall>x\<in>set xs. 0 < x) \<Longrightarrow> 0 < Util_prod (drop n xs)"
  unfolding Util_prod_prod_list by (rule prod_list_pos) (auto dest: in_set_dropD)

lemma unit_cnt_row_nth:
  "unit_cnt_row tis tos tbs bl ! de_FIL = Util_prod (drop (bl + 1) tis) * Util_prod (drop (bl + 1) tos)"
  "unit_cnt_row tis tos tbs bl ! de_IFM = Util_prod (drop (bl + 1) tis) * Util_prod (drop (bl + 1) tbs)"
  "unit_cnt_row tis tos tbs bl ! de_OFM = Util_prod (drop (bl + 1) tos) * Util_prod (drop (bl + 1) tbs)"
  by (simp_all add: unit_cnt_row_def enum_defs Let_def numeral_3_eq_3)

lemma de_cases: "c < de_NUM \<Longrightarrow> c = de_FIL \<or> c = de_IFM \<or> c = de_OFM"
  by (auto simp: enum_defs)

lemma unit_cnt_row_pos:
  assumes "\<forall>x\<in>set tis. 0 < x" "\<forall>x\<in>set tos. 0 < x" "\<forall>x\<in>set tbs. 0 < x" "c < de_NUM"
  shows "0 < unit_cnt_row tis tos tbs bl ! c"
  using de_cases[OF assms(4)] assms(1-3)
  by (auto simp: unit_cnt_row_nth Util_prod_drop_pos)

text \<open>
  Claim C10. For every scheme record, \<^verbatim>\<open>data_size(REGF)\<close> and \<^verbatim>\<open>data_size(REGF, c)\<close> do not
  depend on the \<open>stored_in_gbuf\<close> flags. On a constructed record with positive blocking
  factors and a non-negative GBUF unit size for category \<open>c\<close>, setting the flag of \<open>c\<close>
  never decreases \<^verbatim>\<open>data_size(GBUF)\<close>. A record that the constructor marks invalid at the
  second capacity check (its fetch table has been computed) satisfies the REGF constraint
  and violates the GBUF constraint.
\<close>

theorem residency_changes_gbuf_size_only:
  "data_size (s\<lparr>stored_in_gbuf := flags\<rparr>) BL_REGF dce = data_size s BL_REGF dce
   \<and> (LoopBlockingScheme_init nld tifm tofm tbat orders_in res opts = Inr r
        \<and> (\<forall>x\<in>set tifm. 0 < x) \<and> (\<forall>x\<in>set tofm. 0 < x) \<and> (\<forall>x\<in>set tbat. 0 < x)
        \<and> c < de_NUM \<and> c < length (usize_gbuf nld) \<and> 0 \<le> usize_gbuf nld ! c
      \<longrightarrow> data_size r BL_GBUF None
           \<le> data_size (r\<lparr>stored_in_gbuf := (stored_in_gbuf r)[c := True]\<rparr>) BL_GBUF None)
   \<and> (LoopBlockingScheme_init nld tifm tofm tbat orders_in res opts = Inr r
        \<and> \<not> is_valid r \<and> fetch r \<noteq> None
      \<longrightarrow> data_size r BL_REGF None \<le> size_regf res
          \<and> size_gbuf res < data_size r BL_GBUF None)"
proof (intro conjI impI)
  show "data_size (s\<lparr>stored_in_gbuf := flags\<rparr>) BL_REGF dce = data_size s BL_REGF dce"
    by (rule data_size_regf_flags)
next
  assume h: "LoopBlockingScheme_init nld tifm tofm tbat orders_in res opts = Inr r
        \<and> (\<forall>x\<in>set tifm. 0 < x) \<and> (\<forall>x\<in>set tofm. 0 < x) \<and> (\<forall>x\<in>set tbat. 0 < x)
        \<and> c < de_NUM \<and> c < length (usize_gbuf nld) \<and> 0 \<le> usize_gbuf nld ! c"
  then obtain s0 where a: "init_attrs nld tifm tofm tbat orders_in opts = Inr s0"
    and ck: "init_checks nld res opts s0 = Inr r" by (blast elim: init_cases)
  note d = init_attrs_InrD[OF a]
  have "unit_cnt r = unit_cnt s0 \<and> unit_size r = unit_size s0"
    using ck by (cases rule: init_checks_cases) simp_all
  then have "unit_cnt r ! BL_GBUF ! c = unit_cnt_row tifm tofm tbat 0 ! c"
    and "unit_size r ! BL_GBUF ! c = usize_gbuf nld ! c"
    by (simp_all add: d set_unit_cnt_def BL_GBUF_def BL_NUM_def upt_rec)
  moreover have "0 < unit_cnt_row tifm tofm tbat 0 ! c"
    using h by (intro unit_cnt_row_pos) simp_all
  ultimately have "0 \<le> unit_cnt r ! BL_GBUF ! c * unit_size r ! BL_GBUF ! c"
    using h by simp
  then show "data_size r BL_GBUF None
           \<le> data_size (r\<lparr>stored_in_gbuf := (stored_in_gbuf r)[c := True]\<rparr>) BL_GBUF None"
    by (rule data_size_gbuf_flip_mono)
next
  assume h: "LoopBlockingScheme_init nld tifm tofm tbat orders_in res opts = Inr r
        \<and> \<not> is_valid r \<and> fetch r \<noteq> None"
  then obtain s0 where a: "init_attrs nld tifm tofm tbat orders_in opts = Inr s0"
    and ck: "init_checks nld res opts s0 = Inr r" by (blast elim: init_cases)
  note d = init_attrs_InrD[OF a]
  from ck have "data_size r BL_REGF None \<le> size_regf res
          \<and> size_gbuf res < data_size r BL_GBUF None"
  proof (cases rule: init_checks_cases)
    case first
    with h show ?thesis by (simp add: d)
  next
    case (second f st)
    have e: "data_size r
        = data_size (s0\<lparr>valid := True, fetch := Some f, stored_in_gbuf := st\<rparr>)"
      by (rule data_size_cong) (simp_all add: second(5))
    have "data_size r BL_REGF None = data_size (s0\<lparr>stored_in_gbuf := st\<rparr>) BL_REGF None"
      by (rule arg_cong[where f = "\<lambda>g. g BL_REGF None"], rule data_size_cong)
         (simp_all add: second(5))
    with check_size_False[OF second(1)]
    have "data_size r BL_REGF None \<le> size_regf res"
      by (simp add: data_size_regf_flags)
    moreover from check_size_True[OF second(4)]
    have "size_regf res < data_size r BL_REGF None \<or> size_gbuf res < data_size r BL_GBUF None"
      by (simp add: e)
    ultimately show ?thesis by linarith
  next
    case (ok f st)
    with h show ?thesis by (simp add: is_valid_def)
  qed
  then show "data_size r BL_REGF None \<le> size_regf res"
    and "size_gbuf res < data_size r BL_GBUF None" by simp_all
qed

theorem residency_changes_gbuf_size_only_witness:
  "LoopBlockingScheme_init ex_nld [2, 2, 1] [2, 2, 1] [1, 1, 1] ex_orders ex_res_gbuf ex_opts
     = Inr ex_invalid
   \<and> (1 :: nat) < de_NUM \<and> 1 < length (usize_gbuf ex_nld) \<and> 0 \<le> usize_gbuf ex_nld ! 1
   \<and> \<not> is_valid ex_invalid \<and> fetch ex_invalid \<noteq> None
   \<and> data_size (ex_invalid\<lparr>stored_in_gbuf := [False, False, False]\<rparr>) BL_REGF None
       = data_size ex_invalid BL_REGF None
   \<and> data_size ex_invalid BL_GBUF None
       \<le> data_size (ex_invalid\<lparr>stored_in_gbuf := (stored_in_gbuf ex_invalid)[1 := True]\<rparr>)
           BL_GBUF None
   \<and> data_size ex_invalid BL_REGF None \<le> size_regf ex_res_gbuf
   \<and> size_gbuf ex_res_gbuf < data_size ex_invalid BL_GBUF None"
proof -
  have p: "(\<forall>x\<in>set [2, 2, 1 :: int]. 0 < x) \<and> (\<forall>x\<in>set [1, 1, 1 :: int]. 0 < x)" by simp
  have c: "(1 :: nat) < de_NUM \<and> 1 < length (usize_gbuf ex_nld) \<and> 0 \<le> usize_gbuf ex_nld ! 1"
    by code_simp
  have v: "\<not> is_valid ex_invalid \<and> fetch ex_invalid \<noteq> None" by code_simp
  from residency_changes_gbuf_size_only[where s = ex_invalid and flags = "[False, False, False]"
      and dce = None and nld = ex_nld and tifm = "[2, 2, 1]" and tofm = "[2, 2, 1]"
      and tbat = "[1, 1, 1]" and orders_in = ex_orders and res = ex_res_gbuf and opts = ex_opts
      and r = ex_invalid and c = 1]
    ex_init_gbuf p c v
  show ?thesis by simp
qed

section \<open>Statistics\<close>

lemma calc_stats_Inr:
  assumes "unit_ops s = Some uo" "unit_time s = Some ut" "unit_access s = Some ua"
    "part_occ s = Some po" "fetch s = Some f" "me_REGF < length ua"
  shows "\<exists>s' acc. calc_stats s = Inr s'
    \<and> ops s' = Some (uo * of_int (tip s * top s * tbp s) * po)
    \<and> time s' = Some (ut * of_int (tip s * top s * tbp s))
    \<and> access s' = Some acc
    \<and> acc ! me_DRAM
        = map (\<lambda>(v, u, f). v * of_int u * of_int f)
              (zip (ua ! me_DRAM) (zip (total_units s) (f ! BL_GBUF)))
    \<and> finalized_stats s' = Some True \<and> fetch s' = Some f \<and> valid s' = valid s"
  using assms by (simp add: calc_stats_def Let_def enum_defs)

lemma total_units_eq:
  "total_units s = [tip s * top s, tip s * tbp s, top s * tbp s]"
  by (simp add: total_units_def enum_defs Let_def numeral_3_eq_3)

lemma fetch_row_length: "length (fetch_row s prev bl) = de_NUM"
  by (simp add: fetch_row_def Let_def)

lemma set_fetch_Inr:
  "set_fetch s = Inr f \<Longrightarrow> f = [fetch_row s [] 0, fetch_row s [fetch_row s [] 0] 1]"
  by (simp add: set_fetch_def BL_NUM_def upt_rec split: if_splits)

lemma innermost_nontrivial_loop_cong:
  assumes "ti a = ti b" "to a = to b" "tb a = tb b" "orders a = orders b"
  shows "innermost_nontrivial_loop a = innermost_nontrivial_loop b"
  using assms by (simp add: innermost_nontrivial_loop_def fun_eq_iff)

lemma fetch_row_cong:
  assumes "ti a = ti b" "to a = to b" "tb a = tb b" "orders a = orders b"
  shows "fetch_row a = fetch_row b"
  using assms innermost_nontrivial_loop_cong[OF assms]
  by (simp add: fetch_row_def fun_eq_iff Let_def)

lemma set_fetch_cong:
  assumes "ti a = ti b" "to a = to b" "tb a = tb b" "orders a = orders b"
  shows "set_fetch a = set_fetch b"
proof -
  have "set_fetch_loop a bls acc = set_fetch_loop b bls acc" for bls acc
    by (induction bls arbitrary: acc) (simp_all add: fetch_row_cong[OF assms] assms(4))
  then show ?thesis by (simp add: set_fetch_def)
qed

lemma init_valid_fields:
  assumes "LoopBlockingScheme_init nld tifm tofm tbat orders_in res opts = Inr s"
    and "is_valid s"
  shows "unit_ops s = Some (nested_loop_desc.unit_ops nld)"
    "unit_time s = Some (nested_loop_desc.unit_time nld)"
    "unit_access s = Some (nested_loop_desc.unit_access nld)"
    "part_occ s = Some 1" "finalized_stats s = Some False"
    "\<exists>f. fetch s = Some f \<and> set_fetch s = Inr f"
    "tip s = Util_prod tifm" "top s = Util_prod tofm" "tbp s = Util_prod tbat"
    "ti s = tifm" "to s = tofm" "tb s = tbat"
    "orders s = [orders_in ! me_GBUF, orders_in ! me_REGF]"
    "length tifm = 3" "length tofm = 3" "length tbat = 3"
proof -
  from assms(1) obtain s0 where a: "init_attrs nld tifm tofm tbat orders_in opts = Inr s0"
    and ck: "init_checks nld res opts s0 = Inr s" by (rule init_cases)
  note d = init_attrs_InrD[OF a]
  from ck have "unit_ops s = Some (nested_loop_desc.unit_ops nld)
    \<and> unit_time s = Some (nested_loop_desc.unit_time nld)
    \<and> unit_access s = Some (nested_loop_desc.unit_access nld)
    \<and> part_occ s = Some 1 \<and> finalized_stats s = Some False
    \<and> (\<exists>f. fetch s = Some f \<and> set_fetch (s0\<lparr>valid := True\<rparr>) = Inr f)
    \<and> tip s = tip s0 \<and> top s = top s0 \<and> tbp s = tbp s0
    \<and> ti s = ti s0 \<and> to s = to s0 \<and> tb s = tb s0 \<and> orders s = orders s0"
  proof (cases rule: init_checks_cases)
    case first
    with assms(2) show ?thesis by (simp add: is_valid_def)
  next
    case (second f st)
    with assms(2) show ?thesis by (simp add: is_valid_def)
  next
    case (ok f st)
    then show ?thesis by simp
  qed
  moreover have "set_fetch (s0\<lparr>valid := True\<rparr>) = set_fetch s"
    if "ti s = ti s0 \<and> to s = to s0 \<and> tb s = tb s0 \<and> orders s = orders s0"
    using that by (intro set_fetch_cong) simp_all
  ultimately show "unit_ops s = Some (nested_loop_desc.unit_ops nld)"
    "unit_time s = Some (nested_loop_desc.unit_time nld)"
    "unit_access s = Some (nested_loop_desc.unit_access nld)"
    "part_occ s = Some 1" "finalized_stats s = Some False"
    "\<exists>f. fetch s = Some f \<and> set_fetch s = Inr f"
    "tip s = Util_prod tifm" "top s = Util_prod tofm" "tbp s = Util_prod tbat"
    "ti s = tifm" "to s = tofm" "tb s = tbat"
    "orders s = [orders_in ! me_GBUF, orders_in ! me_REGF]"
    "length tifm = 3" "length tofm = 3" "length tbat = 3"
    using d by auto
qed

lemma getters_core:
  assumes v: "is_valid s" and fz: "finalized_stats s = Some False"
    and u: "unit_ops s = Some uo" "unit_time s = Some ut" "unit_access s = Some ua"
    and o: "part_occ s = Some occ" and f: "fetch s = Some f"
    and l: "me_REGF < length ua"
  obtains s1 acc where
    "get_access s = Inr (Some acc, s1)"
    "get_top_level_fetch s = Inr (Some (f ! BL_GBUF), s1)"
    "get_access s1 = Inr (Some acc, s1)"
    "get_top_level_fetch s1 = Inr (Some (f ! BL_GBUF), s1)"
    "ops s1 = Some (uo * of_int (tip s * top s * tbp s) * occ)"
    "time s1 = Some (ut * of_int (tip s * top s * tbp s))"
    "acc ! me_DRAM
        = map (\<lambda>(v, u, f). v * of_int u * of_int f)
              (zip (ua ! me_DRAM) (zip (total_units s) (f ! BL_GBUF)))"
proof -
  from calc_stats_Inr[OF u o f l]
  obtain s1 acc where c: "calc_stats s = Inr s1"
    "ops s1 = Some (uo * of_int (tip s * top s * tbp s) * occ)"
    "time s1 = Some (ut * of_int (tip s * top s * tbp s))"
    "access s1 = Some acc"
    "acc ! me_DRAM
        = map (\<lambda>(v, u, f). v * of_int u * of_int f)
              (zip (ua ! me_DRAM) (zip (total_units s) (f ! BL_GBUF)))"
    "finalized_stats s1 = Some True" "fetch s1 = Some f" "valid s1 = valid s"
    by blast
  have v1: "is_valid s1" using v c(8) by (simp add: is_valid_def)
  have e0: "ensure_stats s = Inr s1" using fz c(1) by (simp add: ensure_stats_def)
  have e1: "ensure_stats s1 = Inr s1" using c(6) by (simp add: ensure_stats_def)
  have g1: "get_access s = Inr (Some acc, s1)"
    using v e0 c(4) by (simp add: get_access_def)
  have g2: "get_top_level_fetch s = Inr (Some (f ! BL_GBUF), s1)"
    using v e0 c(7) by (simp add: get_top_level_fetch_def)
  have g3: "get_access s1 = Inr (Some acc, s1)"
    using v1 e1 c(4) by (simp add: get_access_def)
  have g4: "get_top_level_fetch s1 = Inr (Some (f ! BL_GBUF), s1)"
    using v1 e1 c(7) by (simp add: get_top_level_fetch_def)
  from g1 g2 g3 g4 c(2,3,5) show ?thesis by (rule that)
qed

lemma set_partition_occupation_fresh:
  assumes "is_valid s0" "finalized_stats s0 = Some False"
  shows "set_partition_occupation s0 p = Inr (s0\<lparr>part_occ := Some p\<rparr>)"
  using assms by (simp add: set_partition_occupation_def)

lemma occupation_frame:
  assumes "s = s0 \<or> s = s0\<lparr>part_occ := Some p\<rparr>"
  shows "valid s = valid s0 \<and> finalized_stats s = finalized_stats s0
    \<and> unit_ops s = unit_ops s0 \<and> unit_time s = unit_time s0
    \<and> unit_access s = unit_access s0 \<and> fetch s = fetch s0
    \<and> tip s = tip s0 \<and> top s = top s0 \<and> tbp s = tbp s0
    \<and> total_units s = total_units s0"
  using assms by (elim disjE) (simp_all add: total_units_def)

text \<open>
  Claim C7. For every valid scheme record the constructor returns, possibly after
  \<^verbatim>\<open>set_partition_occupation\<close>, whose \<^verbatim>\<open>unit_access\<close> table has a row for every hierarchy level:
  \<^verbatim>\<open>get_access\<close> and \<^verbatim>\<open>get_top_level_fetch\<close> return a table and a fetch row, in either order of
  the two calls, and for every data category \<open>c\<close> with a DRAM unit access count the DRAM
  entry of the access table is that count times \<open>total_units[c]\<close> times the entry \<open>c\<close> of the
  top-level fetch row. \<open>total_units\<close> holds the products of the total loop counts of the
  two loops a category depends on.
\<close>

theorem dram_access_round_trip:
  assumes "LoopBlockingScheme_init nld tifm tofm tbat orders_in res opts = Inr s0"
    and "is_valid s0"
    and "s = s0 \<or> set_partition_occupation s0 p = Inr s"
    and "me_REGF < length (nested_loop_desc.unit_access nld)"
    and "c < de_NUM"
    and "c < length (nested_loop_desc.unit_access nld ! me_DRAM)"
  shows "\<exists>acc tf s1.
      get_access s = Inr (Some acc, s1) \<and> get_top_level_fetch s1 = Inr (Some tf, s1)
    \<and> get_top_level_fetch s = Inr (Some tf, s1) \<and> get_access s1 = Inr (Some acc, s1)
    \<and> acc ! me_DRAM ! c
        = nested_loop_desc.unit_access nld ! me_DRAM ! c
          * of_int (total_units s ! c) * of_int (tf ! c)
    \<and> total_units s = [tip s * top s, tip s * tbp s, top s * tbp s]
    \<and> tip s = Util_prod tifm \<and> top s = Util_prod tofm \<and> tbp s = Util_prod tbat"
proof -
  note d = init_valid_fields[OF assms(1,2)]
  from d(6) obtain f where f: "fetch s0 = Some f" "set_fetch s0 = Inr f" by blast
  from assms(3) set_partition_occupation_fresh[OF assms(2) d(5), of p]
  have e: "s = s0 \<or> s = s0\<lparr>part_occ := Some p\<rparr>" by (elim disjE) simp_all
  note k = occupation_frame[OF e]
  from e d(4) obtain occ where o: "part_occ s = Some occ" by (elim disjE) simp_all
  have v: "is_valid s" using assms(2) k by (simp add: is_valid_def)
  from v obtain s1 acc where g:
    "get_access s = Inr (Some acc, s1)"
    "get_top_level_fetch s = Inr (Some (f ! BL_GBUF), s1)"
    "get_access s1 = Inr (Some acc, s1)"
    "get_top_level_fetch s1 = Inr (Some (f ! BL_GBUF), s1)"
    "acc ! me_DRAM
        = map (\<lambda>(v, u, f). v * of_int u * of_int f)
              (zip (nested_loop_desc.unit_access nld ! me_DRAM)
                   (zip (total_units s) (f ! BL_GBUF)))"
  proof (rule getters_core)
    show "finalized_stats s = Some False" using k d(5) by simp
    show "unit_ops s = Some (nested_loop_desc.unit_ops nld)" using k d(1) by simp
    show "unit_time s = Some (nested_loop_desc.unit_time nld)" using k d(2) by simp
    show "unit_access s = Some (nested_loop_desc.unit_access nld)" using k d(3) by simp
    show "part_occ s = Some occ" by (rule o)
    show "fetch s = Some f" using k f(1) by simp
    show "me_REGF < length (nested_loop_desc.unit_access nld)" by (rule assms(4))
  qed blast
  have lf: "length (f ! BL_GBUF) = de_NUM"
    using set_fetch_Inr[OF f(2)] by (simp add: BL_GBUF_def fetch_row_length)
  have lt: "length (total_units s) = de_NUM"
    by (simp add: total_units_eq de_NUM_def)
  have a: "acc ! me_DRAM ! c
        = nested_loop_desc.unit_access nld ! me_DRAM ! c
          * of_int (total_units s ! c) * of_int (f ! BL_GBUF ! c)"
    using assms(5,6) lf lt by (simp add: g(5))
  have t: "tip s = Util_prod tifm \<and> top s = Util_prod tofm \<and> tbp s = Util_prod tbat"
    using k d(7-9) by simp
  show ?thesis
    by (intro exI[of _ acc] exI[of _ "f ! BL_GBUF"] exI[of _ s1] conjI
        g(1) g(4) g(2) g(3) a total_units_eq t[THEN conjunct1]
        t[THEN conjunct2, THEN conjunct1] t[THEN conjunct2, THEN conjunct2])
qed

theorem dram_access_round_trip_witness:
  "LoopBlockingScheme_init ex_nld [2, 2, 1] [2, 2, 1] [1, 1, 1] ex_orders ex_res ex_opts
     = Inr ex_scheme
   \<and> is_valid ex_scheme
   \<and> me_REGF < length (nested_loop_desc.unit_access ex_nld)
   \<and> (1 :: nat) < de_NUM
   \<and> 1 < length (nested_loop_desc.unit_access ex_nld ! me_DRAM)
   \<and> (\<exists>acc tf s1.
      get_access ex_scheme = Inr (Some acc, s1) \<and> get_top_level_fetch s1 = Inr (Some tf, s1)
    \<and> acc ! me_DRAM ! 1
        = nested_loop_desc.unit_access ex_nld ! me_DRAM ! 1
          * of_int (total_units ex_scheme ! 1) * of_int (tf ! 1))"
proof -
  have v: "is_valid ex_scheme" by code_simp
  have l: "me_REGF < length (nested_loop_desc.unit_access ex_nld)" by code_simp
  have c: "(1 :: nat) < de_NUM" by code_simp
  have r: "1 < length (nested_loop_desc.unit_access ex_nld ! me_DRAM)" by code_simp
  have "ex_scheme = ex_scheme \<or> set_partition_occupation ex_scheme 1 = Inr ex_scheme"
    by simp
  from dram_access_round_trip[OF ex_init v this l c r] ex_init v l c r
  show ?thesis by blast
qed

text \<open>
  Claim C8. For every valid scheme record the constructor returns, whose \<^verbatim>\<open>unit_access\<close>
  table has a row for every hierarchy level, with \<open>N\<close> the product of all blocking factors
  (\<open>tip * top * tbp\<close>): the statistics computed by the first getter are
  \<open>ops = unit_ops * N * part_occ\<close> and \<open>time = unit_time * N\<close>, where \<open>part_occ\<close> is 1 unless
  \<^verbatim>\<open>set_partition_occupation\<close> has set it to \<open>p\<close>. The time does not depend on \<open>p\<close>.
\<close>

theorem ops_scaled_by_occupation_time_not:
  assumes "LoopBlockingScheme_init nld tifm tofm tbat orders_in res opts = Inr s0"
    and "is_valid s0"
    and "me_REGF < length (nested_loop_desc.unit_access nld)"
    and "N = prod_list tifm * prod_list tofm * prod_list tbat"
  shows "tip s0 * top s0 * tbp s0 = N
    \<and> (\<exists>a s1. get_access s0 = Inr (a, s1)
          \<and> ops s1 = Some (nested_loop_desc.unit_ops nld * of_int N * 1)
          \<and> time s1 = Some (nested_loop_desc.unit_time nld * of_int N))
    \<and> (\<forall>p s. set_partition_occupation s0 p = Inr s
          \<longrightarrow> (\<exists>a s1. get_access s = Inr (a, s1)
                \<and> ops s1 = Some (nested_loop_desc.unit_ops nld * of_int N * p)
                \<and> time s1 = Some (nested_loop_desc.unit_time nld * of_int N)))"
proof -
  note d = init_valid_fields[OF assms(1,2)]
  from d(6) obtain f where f: "fetch s0 = Some f" by blast
  have n: "tip s0 * top s0 * tbp s0 = N"
    by (simp add: d(7-9) assms(4) Util_prod_prod_list)
  have core: "\<exists>a s1. get_access s = Inr (a, s1)
          \<and> ops s1 = Some (nested_loop_desc.unit_ops nld * of_int N * occ)
          \<and> time s1 = Some (nested_loop_desc.unit_time nld * of_int N)"
    if e: "s = s0 \<or> s = s0\<lparr>part_occ := Some occ\<rparr>" and o: "part_occ s = Some occ"
    for s occ
  proof -
    note k = occupation_frame[OF e]
    have v: "is_valid s" using assms(2) k by (simp add: is_valid_def)
    from v obtain s1 acc where
      "get_access s = Inr (Some acc, s1)"
      "ops s1 = Some (nested_loop_desc.unit_ops nld * of_int (tip s * top s * tbp s) * occ)"
      "time s1 = Some (nested_loop_desc.unit_time nld * of_int (tip s * top s * tbp s))"
    proof (rule getters_core)
      show "finalized_stats s = Some False" using k d(5) by simp
      show "unit_ops s = Some (nested_loop_desc.unit_ops nld)" using k d(1) by simp
      show "unit_time s = Some (nested_loop_desc.unit_time nld)" using k d(2) by simp
      show "unit_access s = Some (nested_loop_desc.unit_access nld)" using k d(3) by simp
      show "part_occ s = Some occ" by (rule o)
      show "fetch s = Some f" using k f by simp
      show "me_REGF < length (nested_loop_desc.unit_access nld)" by (rule assms(3))
    qed blast
    moreover have "tip s * top s * tbp s = N" using k n by simp
    ultimately show ?thesis by simp
  qed
  have a: "\<exists>a s1. get_access s0 = Inr (a, s1)
          \<and> ops s1 = Some (nested_loop_desc.unit_ops nld * of_int N * 1)
          \<and> time s1 = Some (nested_loop_desc.unit_time nld * of_int N)"
    by (rule core) (simp_all add: d(4))
  have b: "\<exists>a s1. get_access s = Inr (a, s1)
          \<and> ops s1 = Some (nested_loop_desc.unit_ops nld * of_int N * p)
          \<and> time s1 = Some (nested_loop_desc.unit_time nld * of_int N)"
    if "set_partition_occupation s0 p = Inr s" for p s
  proof -
    from that set_partition_occupation_fresh[OF assms(2) d(5), of p]
    have "s = s0\<lparr>part_occ := Some p\<rparr>" by simp
    then show ?thesis by (intro core) simp_all
  qed
  from n a b show ?thesis by blast
qed

theorem ops_scaled_by_occupation_time_not_witness:
  "LoopBlockingScheme_init ex_nld [2, 2, 1] [2, 2, 1] [1, 1, 1] ex_orders ex_res ex_opts
     = Inr ex_scheme
   \<and> is_valid ex_scheme
   \<and> me_REGF < length (nested_loop_desc.unit_access ex_nld)
   \<and> set_partition_occupation ex_scheme (1 / 2) = Inr (ex_scheme\<lparr>part_occ := Some (1 / 2)\<rparr>)
   \<and> (\<exists>a s1. get_access (ex_scheme\<lparr>part_occ := Some (1 / 2)\<rparr>) = Inr (a, s1)
         \<and> ops s1 = Some 16 \<and> time s1 = Some 48)"
proof -
  have v: "is_valid ex_scheme" by code_simp
  have l: "me_REGF < length (nested_loop_desc.unit_access ex_nld)" by code_simp
  have n: "(16 :: int) = prod_list [2, 2, 1] * prod_list [2, 2, 1] * prod_list [1, 1, 1]"
    by simp
  have p: "set_partition_occupation ex_scheme (1 / 2)
      = Inr (ex_scheme\<lparr>part_occ := Some (1 / 2)\<rparr>)"
    by code_simp
  have u: "nested_loop_desc.unit_ops ex_nld = 2" "nested_loop_desc.unit_time ex_nld = 3"
    by (simp_all add: ex_nld_def)
  from ops_scaled_by_occupation_time_not[OF ex_init v l n] p
  have "\<exists>a s1. get_access (ex_scheme\<lparr>part_occ := Some (1 / 2)\<rparr>) = Inr (a, s1)
         \<and> ops s1 = Some (nested_loop_desc.unit_ops ex_nld * of_int 16 * (1 / 2))
         \<and> time s1 = Some (nested_loop_desc.unit_time ex_nld * of_int 16)"
    by blast
  with ex_init v l p show ?thesis by (simp add: u)
qed

section \<open>Fetch counts\<close>

lemma init_fields:
  assumes "LoopBlockingScheme_init nld tifm tofm tbat orders_in res opts = Inr s"
  shows "ti s = tifm" "to s = tofm" "tb s = tbat"
    "orders s = [orders_in ! me_GBUF, orders_in ! me_REGF]"
    "tip s = Util_prod tifm" "top s = Util_prod tofm" "tbp s = Util_prod tbat"
    "length tifm = 3" "length tofm = 3" "length tbat = 3"
    "\<And>f. fetch s = Some f \<Longrightarrow> set_fetch s = Inr f"
proof -
  from assms obtain s0 where a: "init_attrs nld tifm tofm tbat orders_in opts = Inr s0"
    and ck: "init_checks nld res opts s0 = Inr s" by (rule init_cases)
  note d = init_attrs_InrD[OF a]
  from ck have k: "ti s = ti s0 \<and> to s = to s0 \<and> tb s = tb s0 \<and> orders s = orders s0
    \<and> tip s = tip s0 \<and> top s = top s0 \<and> tbp s = tbp s0
    \<and> (\<forall>f. fetch s = Some f \<longrightarrow> set_fetch (s0\<lparr>valid := True\<rparr>) = Inr f)"
    by (cases rule: init_checks_cases) (simp_all add: d(12))
  then have "set_fetch (s0\<lparr>valid := True\<rparr>) = set_fetch s"
    by (intro set_fetch_cong) simp_all
  with k d show "ti s = tifm" "to s = tofm" "tb s = tbat"
    "orders s = [orders_in ! me_GBUF, orders_in ! me_REGF]"
    "tip s = Util_prod tifm" "top s = Util_prod tofm" "tbp s = Util_prod tbat"
    "length tifm = 3" "length tofm = 3" "length tbat = 3"
    "\<And>f. fetch s = Some f \<Longrightarrow> set_fetch s = Inr f"
    by simp_all
qed

lemma fetch_row_nth:
  "fetch_row s prev bl ! de_FIL =
     (if ti s ! bl * to s ! bl = 1
      then (if bl > 0 then prev ! (bl - 1) ! de_FIL else 1)
      else Util_prod (take (bl + (if innermost_nontrivial_loop s bl \<noteq> Some le_BAT then 1 else 0))
                           (tb s)))"
  "fetch_row s prev bl ! de_IFM =
     (if ti s ! bl * tb s ! bl = 1
      then (if bl > 0 then prev ! (bl - 1) ! de_IFM else 1)
      else Util_prod (take (bl + (if innermost_nontrivial_loop s bl \<noteq> Some le_OFM then 1 else 0))
                           (to s)))"
  "fetch_row s prev bl ! de_OFM =
     (if to s ! bl * tb s ! bl = 1
      then (if bl > 0 then prev ! (bl - 1) ! de_OFM else 1)
      else 2 * Util_prod (take (bl + (if innermost_nontrivial_loop s bl \<noteq> Some le_IFM then 1 else 0))
                               (ti s)) - 1)"
  by (simp_all add: fetch_row_def Let_def enum_defs numeral_3_eq_3)

lemma set_fetch_nth:
  assumes "set_fetch s = Inr f" "bl < BL_NUM"
  shows "\<exists>prev. f ! bl = fetch_row s prev bl"
proof -
  from assms(2) have "bl = 0 \<or> bl = 1" by (auto simp: BL_NUM_def)
  with set_fetch_Inr[OF assms(1)] show ?thesis by auto
qed

lemma pos_mult_eq_1_iff:
  "0 < (a :: int) \<Longrightarrow> 0 < b \<Longrightarrow> (a * b = 1) = (a = 1 \<and> b = 1)"
  by (auto simp: zmult_eq_1_iff)

lemma py_min_loops:
  assumes "distinct [oi, oo, ob]"
  shows "snd (snd (py_min (a, Ord oi, Some le_IFM)
            [(b, Ord oo, Some le_OFM), (c, Ord ob, Some le_BAT), (False, OrdInf, None)]))
    = (if \<not> a \<and> (b \<or> oi < oo) \<and> (c \<or> oi < ob) then Some le_IFM
       else if \<not> b \<and> (a \<or> oo < oi) \<and> (c \<or> oo < ob) then Some le_OFM
       else if \<not> c \<and> (a \<or> ob < oi) \<and> (b \<or> ob < oo) then Some le_BAT
       else None)"
  using assms by (cases a; cases b; cases c) (auto simp: py_min_def enum_defs)

lemma innermost_nontrivial_loop_iff:
  assumes "orders s ! bl = [oi, oo, ob]" "distinct [oi, oo, ob]"
  shows "innermost_nontrivial_loop s bl = Some le_IFM
       \<longleftrightarrow> ti s ! bl \<noteq> 1 \<and> (to s ! bl \<noteq> 1 \<longrightarrow> oi < oo) \<and> (tb s ! bl \<noteq> 1 \<longrightarrow> oi < ob)"
    "innermost_nontrivial_loop s bl = Some le_OFM
       \<longleftrightarrow> to s ! bl \<noteq> 1 \<and> (ti s ! bl \<noteq> 1 \<longrightarrow> oo < oi) \<and> (tb s ! bl \<noteq> 1 \<longrightarrow> oo < ob)"
    "innermost_nontrivial_loop s bl = Some le_BAT
       \<longleftrightarrow> tb s ! bl \<noteq> 1 \<and> (ti s ! bl \<noteq> 1 \<longrightarrow> ob < oi) \<and> (to s ! bl \<noteq> 1 \<longrightarrow> ob < oo)"
    "innermost_nontrivial_loop s bl = None
       \<longleftrightarrow> ti s ! bl = 1 \<and> to s ! bl = 1 \<and> tb s ! bl = 1"
proof -
  have e: "innermost_nontrivial_loop s bl
    = snd (snd (py_min (ti s ! bl = 1, Ord oi, Some le_IFM)
            [(to s ! bl = 1, Ord oo, Some le_OFM), (tb s ! bl = 1, Ord ob, Some le_BAT),
             (False, OrdInf, None)]))"
    by (simp add: innermost_nontrivial_loop_def assms(1) Let_def le_IFM_def le_OFM_def le_BAT_def)
  have n: "le_IFM \<noteq> le_OFM" "le_IFM \<noteq> le_BAT" "le_OFM \<noteq> le_BAT"
    by (simp_all add: enum_defs)
  show "innermost_nontrivial_loop s bl = Some le_IFM
       \<longleftrightarrow> ti s ! bl \<noteq> 1 \<and> (to s ! bl \<noteq> 1 \<longrightarrow> oi < oo) \<and> (tb s ! bl \<noteq> 1 \<longrightarrow> oi < ob)"
    unfolding e py_min_loops[OF assms(2)] using n assms(2) by auto
  show "innermost_nontrivial_loop s bl = Some le_OFM
       \<longleftrightarrow> to s ! bl \<noteq> 1 \<and> (ti s ! bl \<noteq> 1 \<longrightarrow> oo < oi) \<and> (tb s ! bl \<noteq> 1 \<longrightarrow> oo < ob)"
    unfolding e py_min_loops[OF assms(2)] using n assms(2) by auto
  show "innermost_nontrivial_loop s bl = Some le_BAT
       \<longleftrightarrow> tb s ! bl \<noteq> 1 \<and> (ti s ! bl \<noteq> 1 \<longrightarrow> ob < oi) \<and> (to s ! bl \<noteq> 1 \<longrightarrow> ob < oo)"
    unfolding e py_min_loops[OF assms(2)] using n assms(2) by auto
  show "innermost_nontrivial_loop s bl = None
       \<longleftrightarrow> ti s ! bl = 1 \<and> to s ! bl = 1 \<and> tb s ! bl = 1"
    unfolding e py_min_loops[OF assms(2)] using n assms(2) by auto
qed

text \<open>
  Claim C1, as the code has it. For every scheme record the constructor returns with a fetch
  table (the first capacity check passed) and positive blocking factors, for each blocking
  level \<open>bl\<close> (GBUF, then REGF) and each data category whose two related loops do not both
  have factor 1 at that level: the fetch count is the product of the factors of the
  unrelated loop from the outermost level up to and including \<open>bl\<close> if and only if the
  unrelated loop is \<^emph>\<open>not\<close> the innermost non-trivial loop of the level; when it is the
  innermost non-trivial loop, the product stops one level short and leaves out the factor
  of level \<open>bl\<close>. The output category takes twice the product minus one. The unrelated
  loops are BAT for the filters, OFM for the input maps and IFM for the output maps.
\<close>

theorem fetch_includes_level_unless_unrelated_innermost:
  assumes "LoopBlockingScheme_init nld tifm tofm tbat orders_in res opts = Inr s"
    and "fetch s = Some f"
    and "\<forall>x\<in>set tifm. 0 < x" and "\<forall>x\<in>set tofm. 0 < x" and "\<forall>x\<in>set tbat. 0 < x"
    and "bl < BL_NUM"
  shows "(\<not> (ti s ! bl = 1 \<and> to s ! bl = 1) \<longrightarrow>
            f ! bl ! de_FIL =
              (if innermost_nontrivial_loop s bl = Some le_BAT
               then Util_prod (take bl (tb s)) else Util_prod (take (bl + 1) (tb s))))
       \<and> (\<not> (ti s ! bl = 1 \<and> tb s ! bl = 1) \<longrightarrow>
            f ! bl ! de_IFM =
              (if innermost_nontrivial_loop s bl = Some le_OFM
               then Util_prod (take bl (to s)) else Util_prod (take (bl + 1) (to s))))
       \<and> (\<not> (to s ! bl = 1 \<and> tb s ! bl = 1) \<longrightarrow>
            f ! bl ! de_OFM =
              (if innermost_nontrivial_loop s bl = Some le_IFM
               then 2 * Util_prod (take bl (ti s)) - 1
               else 2 * Util_prod (take (bl + 1) (ti s)) - 1))"
proof -
  note d = init_fields[OF assms(1)]
  from assms(6) have b: "bl < 3" by (simp add: BL_NUM_def)
  have p: "0 < ti s ! bl" "0 < to s ! bl" "0 < tb s ! bl"
    using assms(3-5) b d(1-3,8-10) by simp_all
  from set_fetch_nth[OF d(11)[OF assms(2)] assms(6)]
  obtain prev where r: "f ! bl = fetch_row s prev bl" by blast
  show ?thesis
    unfolding r fetch_row_nth
    by (simp add: pos_mult_eq_1_iff p)
qed

theorem fetch_includes_level_unless_unrelated_innermost_witness:
  "LoopBlockingScheme_init ex_nld [2, 2, 1] [2, 2, 1] [1, 1, 1] ex_orders ex_res ex_opts
     = Inr ex_scheme
   \<and> fetch ex_scheme = Some [[1, 2, 1], [1, 4, 3]]
   \<and> BL_GBUF < BL_NUM
   \<and> \<not> (ti ex_scheme ! BL_GBUF = 1 \<and> tb ex_scheme ! BL_GBUF = 1)
   \<and> innermost_nontrivial_loop ex_scheme BL_GBUF \<noteq> Some le_OFM
   \<and> [[1, 2, 1], [1, 4, 3]] ! BL_GBUF ! de_IFM = Util_prod (take (BL_GBUF + 1) (to ex_scheme))
   \<and> \<not> (to ex_scheme ! BL_GBUF = 1 \<and> tb ex_scheme ! BL_GBUF = 1)
   \<and> innermost_nontrivial_loop ex_scheme BL_GBUF = Some le_IFM
   \<and> [[1, 2, 1], [1, 4, 3]] ! BL_GBUF ! de_OFM = 2 * Util_prod (take BL_GBUF (ti ex_scheme)) - 1"
proof -
  have f: "fetch ex_scheme = Some [[1, 2, 1], [1, 4, 3]]" by code_simp
  have p: "\<forall>x\<in>set [2, 2, 1 :: int]. 0 < x" "\<forall>x\<in>set [1, 1, 1 :: int]. 0 < x" by simp_all
  have b: "BL_GBUF < BL_NUM" by code_simp
  have c: "\<not> (ti ex_scheme ! BL_GBUF = 1 \<and> tb ex_scheme ! BL_GBUF = 1)"
    "\<not> (to ex_scheme ! BL_GBUF = 1 \<and> tb ex_scheme ! BL_GBUF = 1)"
    "innermost_nontrivial_loop ex_scheme BL_GBUF = Some le_IFM" "le_IFM \<noteq> le_OFM"
    by code_simp+
  from fetch_includes_level_unless_unrelated_innermost[OF ex_init f p(1) p(1) p(2) b]
    ex_init f b c
  show ?thesis by simp
qed

text \<open>
  The claim as stated fails on the valid example record, at the GBUF level. For the input
  maps the unrelated loop OFM is not the innermost non-trivial loop (IFM is), so the claim
  stops the product one level short, at 1; the code's fetch count is 2. For the output
  maps the unrelated loop IFM is the innermost non-trivial loop, so the claim takes
  \<open>2 * 2 - 1 = 3\<close>; the code's fetch count is 1.
\<close>

theorem claimed_fetch_product_counterexample:
  "LoopBlockingScheme_init ex_nld [2, 2, 1] [2, 2, 1] [1, 1, 1] ex_orders ex_res ex_opts
     = Inr ex_scheme
   \<and> fetch ex_scheme = Some [[1, 2, 1], [1, 4, 3]]
   \<and> \<not> (ti ex_scheme ! BL_GBUF = 1 \<and> tb ex_scheme ! BL_GBUF = 1)
   \<and> [[1, 2, 1], [1, 4, 3]] ! BL_GBUF ! de_IFM = (2 :: int)
   \<and> claimed_fetch_product ex_scheme BL_GBUF le_OFM (to ex_scheme) = 1
   \<and> \<not> (to ex_scheme ! BL_GBUF = 1 \<and> tb ex_scheme ! BL_GBUF = 1)
   \<and> [[1, 2, 1], [1, 4, 3]] ! BL_GBUF ! de_OFM = (1 :: int)
   \<and> 2 * claimed_fetch_product ex_scheme BL_GBUF le_IFM (ti ex_scheme) - 1 = 3"
proof -
  have "fetch ex_scheme = Some [[1, 2, 1], [1, 4, 3]]" by code_simp
  moreover have "\<not> (ti ex_scheme ! BL_GBUF = 1 \<and> tb ex_scheme ! BL_GBUF = 1)" by code_simp
  moreover have "[[1, 2, 1], [1, 4, 3]] ! BL_GBUF ! de_IFM = (2 :: int)" by code_simp
  moreover have "claimed_fetch_product ex_scheme BL_GBUF le_OFM (to ex_scheme) = 1"
    by code_simp
  moreover have "\<not> (to ex_scheme ! BL_GBUF = 1 \<and> tb ex_scheme ! BL_GBUF = 1)" by code_simp
  moreover have "[[1, 2, 1], [1, 4, 3]] ! BL_GBUF ! de_OFM = (1 :: int)" by code_simp
  moreover have "2 * claimed_fetch_product ex_scheme BL_GBUF le_IFM (ti ex_scheme) - 1 = 3"
    by code_simp
  ultimately show ?thesis using ex_init by simp
qed

section \<open>The index generator\<close>

lemma upt3: "[0..<3] = [0, 1, 2]" by (simp add: upt_rec)

lemma set_xrange: "set (xrange n) = {0..<n}"
proof -
  have "int ` {0..<nat n} = {0..<n}"
  proof (intro set_eqI iffI)
    fix x assume "x \<in> {0..<n}"
    then have "x = int (nat x)" "nat x \<in> {0..<nat n}" by auto
    then show "x \<in> int ` {0..<nat n}" by blast
  qed auto
  then show ?thesis by (simp add: xrange_def)
qed

lemma distinct_xrange: "distinct (xrange n)"
  by (simp add: xrange_def distinct_map)

lemma length_xrange: "length (xrange n) = nat n"
  by (simp add: xrange_def)

lemma set_product_lists3:
  "set (product_lists [A, B, C]) = triples (set A) (set B) (set C)"
  by (auto simp: triples_def)

lemma length_product_lists3:
  "length (product_lists [A, B, C]) = length A * length B * length C"
  by (simp add: length_product_lists del: product_lists.simps)

lemma distinct_product_lists3:
  "distinct A \<Longrightarrow> distinct B \<Longrightarrow> distinct C \<Longrightarrow> distinct (product_lists [A, B, C])"
  by (rule distinct_product_lists) simp

lemma reorder_triples:
  assumes "{k0, k1, k2} = {0, 1, 2 :: nat}"
  shows "inj_on (\<lambda>idx. [idx ! k0, idx ! k1, idx ! k2]) (triples A B C)"
proof (rule inj_onI)
  fix u v assume u: "u \<in> triples A B C" and v: "v \<in> triples A B C"
    and e: "[u ! k0, u ! k1, u ! k2] = [v ! k0, v ! k1, v ! k2]"
  from u v obtain x y z x' y' z' where uv: "u = [x, y, z]" "v = [x', y', z']"
    by (auto simp: triples_def)
  have "0 \<in> {k0, k1, k2}" "1 \<in> {k0, k1, k2}" "2 \<in> {k0, k1, k2}" using assms by simp_all
  with e have "u ! 0 = v ! 0" "u ! 1 = v ! 1" "u ! 2 = v ! 2" by auto
  with uv show "u = v" by simp
qed

lemma perm3_cases:
  fixes ord :: "int list"
  assumes "distinct ord" "set ord = {0, 1, 2}"
  shows "ord \<in> {[0, 1, 2], [0, 2, 1], [1, 0, 2], [1, 2, 0], [2, 0, 1], [2, 1, 0]}"
proof -
  from assms have "length ord = 3" using distinct_card[of ord] by simp
  then obtain x y z where o: "ord = [x, y, z]"
    by (auto simp: numeral_3_eq_3 length_Suc_conv)
  from assms(2) have "x \<in> {0, 1, 2}" "y \<in> {0, 1, 2}" "z \<in> {0, 1, 2}"
    unfolding o by auto
  with assms(1) show ?thesis unfolding o by auto
qed

lemma reorder_image:
  "(\<lambda>idx. [idx ! 2, idx ! 1, idx ! 0]) ` triples C B A = triples A B C"
  "(\<lambda>idx. [idx ! 2, idx ! 0, idx ! 1]) ` triples B C A = triples A B C"
  "(\<lambda>idx. [idx ! 1, idx ! 2, idx ! 0]) ` triples C A B = triples A B C"
  "(\<lambda>idx. [idx ! 1, idx ! 0, idx ! 2]) ` triples B A C = triples A B C"
  "(\<lambda>idx. [idx ! 0, idx ! 2, idx ! 1]) ` triples A C B = triples A B C"
  "(\<lambda>idx. [idx ! 0, idx ! 1, idx ! 2]) ` triples A B C = triples A B C"
  unfolding triples_def by (force simp: image_iff)+

lemma single_level_result:
  assumes "{k0, k1, k2} = {0, 1, 2 :: nat}" "distinct A" "distinct B" "distinct C"
    and "(\<lambda>idx. [idx ! k0, idx ! k1, idx ! k2]) ` triples (set A) (set B) (set C) = T"
    and "length A * length B * length C = n"
    and "L = map (\<lambda>idx. [idx ! k0, idx ! k1, idx ! k2]) (product_lists [A, B, C])"
  shows "set L = T \<and> distinct L \<and> length L = n"
proof -
  have "inj_on (\<lambda>idx. [idx ! k0, idx ! k1, idx ! k2]) (set (product_lists [A, B, C]))"
    unfolding set_product_lists3 by (rule reorder_triples[OF assms(1)])
  with distinct_product_lists3[OF assms(2-4)]
  have "distinct L" unfolding assms(7) by (simp add: distinct_map del: product_lists.simps)
  moreover have "set L = T"
    unfolding assms(7) set_map set_product_lists3 by (rule assms(5))
  moreover have "length L = n"
    unfolding assms(7) length_map length_product_lists3 by (rule assms(6))
  ultimately show ?thesis by simp
qed

lemma single_level_conclude:
  assumes "gen_index_single_level [a, b, c] ord
      = Inr (map (\<lambda>idx. [idx ! k0, idx ! k1, idx ! k2]) (product_lists [A, B, C]))"
    and "{k0, k1, k2} = {0, 1, 2 :: nat}"
    and "distinct A" "distinct B" "distinct C"
    and "(\<lambda>idx. [idx ! k0, idx ! k1, idx ! k2]) ` triples (set A) (set B) (set C)
      = triples {0..<a} {0..<b} {0..<c}"
    and "length A * length B * length C = nat a * nat b * nat c"
  shows "\<exists>L. gen_index_single_level [a, b, c] ord = Inr L
    \<and> set L = triples {0..<a} {0..<b} {0..<c} \<and> distinct L
    \<and> length L = nat a * nat b * nat c"
  using single_level_result[OF assms(2-7) refl] assms(1) by blast

lemma gen_index_single_level_perm:
  assumes "distinct ord" "set ord = {0, 1, 2}"
  shows "\<exists>L. gen_index_single_level [a, b, c] ord = Inr L
    \<and> set L = triples {0..<a} {0..<b} {0..<c} \<and> distinct L
    \<and> length L = nat a * nat b * nat c"
proof -
  note ev = gen_index_single_level_def py_index_def le_NUM_def upt3 Let_def numeral_3_eq_3
  from perm3_cases[OF assms]
  consider "ord = [0, 1, 2]" | "ord = [0, 2, 1]" | "ord = [1, 0, 2]"
    | "ord = [1, 2, 0]" | "ord = [2, 0, 1]" | "ord = [2, 1, 0]" by auto
  then show ?thesis
  proof cases
    case 1
    show ?thesis
    proof (rule single_level_conclude[where ?k0.0 = 2 and ?k1.0 = 1 and ?k2.0 = 0
          and A = "xrange c" and B = "xrange b" and C = "xrange a"])
      show "gen_index_single_level [a, b, c] ord
        = Inr (map (\<lambda>idx. [idx ! 2, idx ! 1, idx ! 0])
                   (product_lists [xrange c, xrange b, xrange a]))"
        unfolding 1 by (simp add: ev del: product_lists.simps)
      show "{2, 1, 0} = {0, 1, 2 :: nat}" by auto
      show "(\<lambda>idx. [idx ! 2, idx ! 1, idx ! 0])
            ` triples (set (xrange c)) (set (xrange b)) (set (xrange a))
          = triples {0..<a} {0..<b} {0..<c}"
        unfolding set_xrange by (rule reorder_image)
    qed (simp_all add: distinct_xrange length_xrange)
  next
    case 2
    show ?thesis
    proof (rule single_level_conclude[where ?k0.0 = 2 and ?k1.0 = 0 and ?k2.0 = 1
          and A = "xrange b" and B = "xrange c" and C = "xrange a"])
      show "gen_index_single_level [a, b, c] ord
        = Inr (map (\<lambda>idx. [idx ! 2, idx ! 0, idx ! 1])
                   (product_lists [xrange b, xrange c, xrange a]))"
        unfolding 2 by (simp add: ev del: product_lists.simps)
      show "{2, 0, 1} = {0, 1, 2 :: nat}" by auto
      show "(\<lambda>idx. [idx ! 2, idx ! 0, idx ! 1])
            ` triples (set (xrange b)) (set (xrange c)) (set (xrange a))
          = triples {0..<a} {0..<b} {0..<c}"
        unfolding set_xrange by (rule reorder_image)
    qed (simp_all add: distinct_xrange length_xrange)
  next
    case 3
    show ?thesis
    proof (rule single_level_conclude[where ?k0.0 = 1 and ?k1.0 = 2 and ?k2.0 = 0
          and A = "xrange c" and B = "xrange a" and C = "xrange b"])
      show "gen_index_single_level [a, b, c] ord
        = Inr (map (\<lambda>idx. [idx ! 1, idx ! 2, idx ! 0])
                   (product_lists [xrange c, xrange a, xrange b]))"
        unfolding 3 by (simp add: ev del: product_lists.simps)
      show "{1, 2, 0} = {0, 1, 2 :: nat}" by auto
      show "(\<lambda>idx. [idx ! 1, idx ! 2, idx ! 0])
            ` triples (set (xrange c)) (set (xrange a)) (set (xrange b))
          = triples {0..<a} {0..<b} {0..<c}"
        unfolding set_xrange by (rule reorder_image)
    qed (simp_all add: distinct_xrange length_xrange)
  next
    case 4
    show ?thesis
    proof (rule single_level_conclude[where ?k0.0 = 1 and ?k1.0 = 0 and ?k2.0 = 2
          and A = "xrange b" and B = "xrange a" and C = "xrange c"])
      show "gen_index_single_level [a, b, c] ord
        = Inr (map (\<lambda>idx. [idx ! 1, idx ! 0, idx ! 2])
                   (product_lists [xrange b, xrange a, xrange c]))"
        unfolding 4 by (simp add: ev del: product_lists.simps)
      show "{1, 0, 2} = {0, 1, 2 :: nat}" by auto
      show "(\<lambda>idx. [idx ! 1, idx ! 0, idx ! 2])
            ` triples (set (xrange b)) (set (xrange a)) (set (xrange c))
          = triples {0..<a} {0..<b} {0..<c}"
        unfolding set_xrange by (rule reorder_image)
    qed (simp_all add: distinct_xrange length_xrange)
  next
    case 5
    show ?thesis
    proof (rule single_level_conclude[where ?k0.0 = 0 and ?k1.0 = 2 and ?k2.0 = 1
          and A = "xrange a" and B = "xrange c" and C = "xrange b"])
      show "gen_index_single_level [a, b, c] ord
        = Inr (map (\<lambda>idx. [idx ! 0, idx ! 2, idx ! 1])
                   (product_lists [xrange a, xrange c, xrange b]))"
        unfolding 5 by (simp add: ev del: product_lists.simps)
      show "{0, 2, 1} = {0, 1, 2 :: nat}" by auto
      show "(\<lambda>idx. [idx ! 0, idx ! 2, idx ! 1])
            ` triples (set (xrange a)) (set (xrange c)) (set (xrange b))
          = triples {0..<a} {0..<b} {0..<c}"
        unfolding set_xrange by (rule reorder_image)
    qed (simp_all add: distinct_xrange length_xrange)
  next
    case 6
    show ?thesis
    proof (rule single_level_conclude[where ?k0.0 = 0 and ?k1.0 = 1 and ?k2.0 = 2
          and A = "xrange a" and B = "xrange b" and C = "xrange c"])
      show "gen_index_single_level [a, b, c] ord
        = Inr (map (\<lambda>idx. [idx ! 0, idx ! 1, idx ! 2])
                   (product_lists [xrange a, xrange b, xrange c]))"
        unfolding 6 by (simp add: ev del: product_lists.simps)
      show "{0, 1, 2} = {0, 1, 2 :: nat}" by auto
      show "(\<lambda>idx. [idx ! 0, idx ! 1, idx ! 2])
            ` triples (set (xrange a)) (set (xrange b)) (set (xrange c))
          = triples {0..<a} {0..<b} {0..<c}"
        unfolding set_xrange by (rule reorder_image)
    qed (simp_all add: distinct_xrange length_xrange)
  qed
qed

lemma digit2_inj:
  fixes q r q' r' m :: int
  assumes "0 \<le> r" "r < m" "0 \<le> r'" "r' < m" "q * m + r = q' * m + r'"
  shows "q = q' \<and> r = r'"
proof -
  from assms(1,2) have m: "m \<noteq> 0" by simp
  have "(q * m + r) div m = q" using assms(1,2) m by (simp add: div_pos_pos_trivial)
  moreover have "(q' * m + r') div m = q'" using assms(3,4) m by (simp add: div_pos_pos_trivial)
  ultimately have "q = q'" using assms(5) by simp
  with assms(5) show ?thesis by simp
qed

lemma digit2_range:
  fixes q r k m :: int
  assumes "0 \<le> q" "q < k" "0 \<le> r" "r < m"
  shows "0 \<le> q * m + r \<and> q * m + r < k * m"
proof -
  from assms have m: "0 < m" by simp
  have "q * m + r < q * m + m" using assms(4) by simp
  also have "\<dots> = (q + 1) * m" by (simp add: algebra_simps)
  also have "\<dots> \<le> k * m" using assms(2) m by (intro mult_right_mono) simp_all
  finally have "q * m + r < k * m" .
  moreover have "0 \<le> q * m" using assms(1) m by simp
  ultimately show ?thesis using assms(3) by simp
qed

lemma digit2_split:
  fixes n k m :: int
  assumes "0 \<le> n" "n < k * m" "0 < m"
  shows "\<exists>q r. 0 \<le> q \<and> q < k \<and> 0 \<le> r \<and> r < m \<and> n = q * m + r"
proof (intro exI conjI)
  show "0 \<le> n div m" using assms(1,3) by (simp add: pos_imp_zdiv_nonneg_iff)
  show "n div m < k"
  proof (rule ccontr)
    assume "\<not> n div m < k"
    then have "k * m \<le> n div m * m" using assms(3) by (intro mult_right_mono) simp_all
    moreover have "n div m * m + n mod m = n" by simp
    moreover have "0 \<le> n mod m" using assms(3) by simp
    ultimately show False using assms(2) by linarith
  qed
  show "0 \<le> n mod m" using assms(3) by simp
  show "n mod m < m" using assms(3) by simp
  show "n = n div m * m + n mod m" by simp
qed

lemma radix3_inj:
  fixes i0 i1 i2 j0 j1 j2 a1 a2 :: int
  assumes "0 \<le> i1" "i1 < a1" "0 \<le> j1" "j1 < a1" "0 \<le> i2" "i2 < a2" "0 \<le> j2" "j2 < a2"
    and "i0 * (a1 * a2) + i1 * a2 + i2 = j0 * (a1 * a2) + j1 * a2 + j2"
  shows "i0 = j0 \<and> i1 = j1 \<and> i2 = j2"
proof -
  from assms(9) have "(i0 * a1 + i1) * a2 + i2 = (j0 * a1 + j1) * a2 + j2"
    by (simp add: algebra_simps)
  from digit2_inj[OF assms(5,6,7,8) this]
  have e: "i0 * a1 + i1 = j0 * a1 + j1" and "i2 = j2" by simp_all
  with digit2_inj[OF assms(1,2,3,4) e] show ?thesis by simp
qed

lemma radix3_range:
  fixes i0 i1 i2 a0 a1 a2 :: int
  assumes "0 \<le> i0" "i0 < a0" "0 \<le> i1" "i1 < a1" "0 \<le> i2" "i2 < a2"
  shows "0 \<le> i0 * (a1 * a2) + i1 * a2 + i2 \<and> i0 * (a1 * a2) + i1 * a2 + i2 < a0 * a1 * a2"
proof -
  from digit2_range[OF assms(1-4)]
  have "0 \<le> i0 * a1 + i1" "i0 * a1 + i1 < a0 * a1" by simp_all
  from digit2_range[OF this assms(5,6)]
  show ?thesis by (simp add: algebra_simps)
qed

lemma radix3_split:
  fixes n a0 a1 a2 :: int
  assumes "0 \<le> n" "n < a0 * a1 * a2" "0 < a1" "0 < a2"
  shows "\<exists>i0 i1 i2. 0 \<le> i0 \<and> i0 < a0 \<and> 0 \<le> i1 \<and> i1 < a1 \<and> 0 \<le> i2 \<and> i2 < a2
    \<and> n = i0 * (a1 * a2) + i1 * a2 + i2"
proof -
  from digit2_split[OF assms(1) _ assms(4), of "a0 * a1"] assms(2)
  obtain q i2 where q: "0 \<le> q" "q < a0 * a1" "0 \<le> i2" "i2 < a2" "n = q * a2 + i2"
    by auto
  from digit2_split[OF q(1,2) assms(3)]
  obtain i0 i1 where i: "0 \<le> i0" "i0 < a0" "0 \<le> i1" "i1 < a1" "q = i0 * a1 + i1"
    by auto
  have "n = i0 * (a1 * a2) + i1 * a2 + i2"
    unfolding q(5) i(5) by (simp add: algebra_simps)
  with i(1-4) q(3,4) show ?thesis by blast
qed

lemma set_product_lists_three:
  "set (product_lists [A, B, C]) = {[x, y, z] | x y z. x \<in> set A \<and> y \<in> set B \<and> z \<in> set C}"
  by auto

lemma merge_idx_three:
  "merge_idx [[i0, o0, b0], [i1, o1, b1], [i2, o2, b2]]
             [[ci0, co0, cb0], [ci1, co1, cb1], replicate le_NUM 1]
     = [i0 * ci0 + i1 * ci1 + i2, o0 * co0 + o1 * co1 + o2, b0 * cb0 + b1 * cb1 + b2]"
  by (simp add: merge_idx_def le_NUM_def numeral_3_eq_3)

lemma triplesE:
  assumes "x \<in> triples {0..<a} {0..<b} {0..<c}"
  obtains i o' q where "x = [i, o', q]" "0 \<le> i" "i < a" "0 \<le> o'" "o' < b" "0 \<le> q" "q < c"
  using assms by (auto simp: triples_def)

lemma triplesI:
  "0 \<le> i \<Longrightarrow> i < a \<Longrightarrow> 0 \<le> o' \<Longrightarrow> o' < b \<Longrightarrow> 0 \<le> q \<Longrightarrow> q < c
    \<Longrightarrow> [i, o', q] \<in> triples {0..<a} {0..<b} {0..<c}"
  by (simp add: triples_def)

lemma merged_indices:
  fixes L0 L1 L2 :: "int list list"
  assumes s0: "set L0 = triples {0..<a0} {0..<b0} {0..<c0}" and d0: "distinct L0"
    and s1: "set L1 = triples {0..<a1} {0..<b1} {0..<c1}" and d1: "distinct L1"
    and s2: "set L2 = triples {0..<a2} {0..<b2} {0..<c2}" and d2: "distinct L2"
    and pos: "0 < a1" "0 < a2" "0 < b1" "0 < b2" "0 < c1" "0 < c2"
    and cn: "cnts = [[a1 * a2, b1 * b2, c1 * c2], [a2, b2, c2], replicate le_NUM 1]"
    and I: "idxs = map (\<lambda>bl. merge_idx bl cnts) (product_lists [L0, L1, L2])"
  shows "set idxs = triples {0..<a0 * a1 * a2} {0..<b0 * b1 * b2} {0..<c0 * c1 * c2}"
    and "distinct idxs"
proof -
  let ?m = "\<lambda>bl. merge_idx bl cnts"
  let ?P = "set (product_lists [L0, L1, L2])"
  have P: "?P = {[x, y, z] | x y z. x \<in> set L0 \<and> y \<in> set L1 \<and> z \<in> set L2}"
    by (rule set_product_lists_three)
  have shape: "\<exists>i0 o0 q0 i1 o1 q1 i2 o2 q2.
      u = [[i0, o0, q0], [i1, o1, q1], [i2, o2, q2]]
      \<and> (0 \<le> i0 \<and> i0 < a0 \<and> 0 \<le> o0 \<and> o0 < b0 \<and> 0 \<le> q0 \<and> q0 < c0)
      \<and> (0 \<le> i1 \<and> i1 < a1 \<and> 0 \<le> o1 \<and> o1 < b1 \<and> 0 \<le> q1 \<and> q1 < c1)
      \<and> (0 \<le> i2 \<and> i2 < a2 \<and> 0 \<le> o2 \<and> o2 < b2 \<and> 0 \<le> q2 \<and> q2 < c2)
      \<and> ?m u = [i0 * (a1 * a2) + i1 * a2 + i2, o0 * (b1 * b2) + o1 * b2 + o2,
                 q0 * (c1 * c2) + q1 * c2 + q2]"
    if "u \<in> ?P" for u
  proof -
    from that obtain x y z where u: "u = [x, y, z]"
      and x: "x \<in> triples {0..<a0} {0..<b0} {0..<c0}"
      and y: "y \<in> triples {0..<a1} {0..<b1} {0..<c1}"
      and z: "z \<in> triples {0..<a2} {0..<b2} {0..<c2}"
      unfolding P s0 s1 s2 by blast
    from x obtain i0 o0 q0 where x': "x = [i0, o0, q0]"
      "0 \<le> i0" "i0 < a0" "0 \<le> o0" "o0 < b0" "0 \<le> q0" "q0 < c0" by (rule triplesE)
    from y obtain i1 o1 q1 where y': "y = [i1, o1, q1]"
      "0 \<le> i1" "i1 < a1" "0 \<le> o1" "o1 < b1" "0 \<le> q1" "q1 < c1" by (rule triplesE)
    from z obtain i2 o2 q2 where z': "z = [i2, o2, q2]"
      "0 \<le> i2" "i2 < a2" "0 \<le> o2" "o2 < b2" "0 \<le> q2" "q2 < c2" by (rule triplesE)
    have "?m u = [i0 * (a1 * a2) + i1 * a2 + i2, o0 * (b1 * b2) + o1 * b2 + o2,
                 q0 * (c1 * c2) + q1 * c2 + q2]"
      unfolding u x'(1) y'(1) z'(1) cn by (rule merge_idx_three)
    with u x' y' z' show ?thesis by blast
  qed
  have sub: "?m u \<in> triples {0..<a0 * a1 * a2} {0..<b0 * b1 * b2} {0..<c0 * c1 * c2}"
    if "u \<in> ?P" for u
  proof -
    from shape[OF that] obtain i0 o0 q0 i1 o1 q1 i2 o2 q2 where
      b: "0 \<le> i0" "i0 < a0" "0 \<le> o0" "o0 < b0" "0 \<le> q0" "q0 < c0"
         "0 \<le> i1" "i1 < a1" "0 \<le> o1" "o1 < b1" "0 \<le> q1" "q1 < c1"
         "0 \<le> i2" "i2 < a2" "0 \<le> o2" "o2 < b2" "0 \<le> q2" "q2 < c2"
      and m: "?m u = [i0 * (a1 * a2) + i1 * a2 + i2, o0 * (b1 * b2) + o1 * b2 + o2,
                 q0 * (c1 * c2) + q1 * c2 + q2]"
      by blast
    from radix3_range[OF b(1,2,7,8,13,14)] radix3_range[OF b(3,4,9,10,15,16)]
      radix3_range[OF b(5,6,11,12,17,18)]
    show ?thesis unfolding m by (intro triplesI) simp_all
  qed
  have sup: "t \<in> ?m ` ?P"
    if "t \<in> triples {0..<a0 * a1 * a2} {0..<b0 * b1 * b2} {0..<c0 * c1 * c2}" for t
  proof -
    from that obtain n m k where t: "t = [n, m, k]"
      "0 \<le> n" "n < a0 * a1 * a2" "0 \<le> m" "m < b0 * b1 * b2" "0 \<le> k" "k < c0 * c1 * c2"
      by (rule triplesE)
    from radix3_split[OF t(2,3) pos(1,2)] obtain i0 i1 i2 where
      i: "0 \<le> i0" "i0 < a0" "0 \<le> i1" "i1 < a1" "0 \<le> i2" "i2 < a2"
         "n = i0 * (a1 * a2) + i1 * a2 + i2" by blast
    from radix3_split[OF t(4,5) pos(3,4)] obtain o0 o1 o2 where
      o: "0 \<le> o0" "o0 < b0" "0 \<le> o1" "o1 < b1" "0 \<le> o2" "o2 < b2"
         "m = o0 * (b1 * b2) + o1 * b2 + o2" by blast
    from radix3_split[OF t(6,7) pos(5,6)] obtain q0 q1 q2 where
      q: "0 \<le> q0" "q0 < c0" "0 \<le> q1" "q1 < c1" "0 \<le> q2" "q2 < c2"
         "k = q0 * (c1 * c2) + q1 * c2 + q2" by blast
    let ?u = "[[i0, o0, q0], [i1, o1, q1], [i2, o2, q2]]"
    have "?u \<in> ?P"
      unfolding P s0 s1 s2 using i(1-6) o(1-6) q(1-6) by (simp add: triplesI)
    moreover have "?m ?u = t"
      unfolding cn t(1) i(7) o(7) q(7) by (rule merge_idx_three)
    ultimately show ?thesis by force
  qed
  show "set idxs = triples {0..<a0 * a1 * a2} {0..<b0 * b1 * b2} {0..<c0 * c1 * c2}"
    unfolding I set_map using sub sup by blast
  have inj: "inj_on ?m ?P"
  proof (rule inj_onI)
    fix u v assume u: "u \<in> ?P" and v: "v \<in> ?P" and e: "?m u = ?m v"
    from shape[OF u] obtain i0 o0 q0 i1 o1 q1 i2 o2 q2 where
      u': "u = [[i0, o0, q0], [i1, o1, q1], [i2, o2, q2]]"
      and b: "0 \<le> i1" "i1 < a1" "0 \<le> o1" "o1 < b1" "0 \<le> q1" "q1 < c1"
         "0 \<le> i2" "i2 < a2" "0 \<le> o2" "o2 < b2" "0 \<le> q2" "q2 < c2"
      and m: "?m u = [i0 * (a1 * a2) + i1 * a2 + i2, o0 * (b1 * b2) + o1 * b2 + o2,
                 q0 * (c1 * c2) + q1 * c2 + q2]"
      by blast
    from shape[OF v] obtain j0 p0 r0 j1 p1 r1 j2 p2 r2 where
      v': "v = [[j0, p0, r0], [j1, p1, r1], [j2, p2, r2]]"
      and b': "0 \<le> j1" "j1 < a1" "0 \<le> p1" "p1 < b1" "0 \<le> r1" "r1 < c1"
         "0 \<le> j2" "j2 < a2" "0 \<le> p2" "p2 < b2" "0 \<le> r2" "r2 < c2"
      and m': "?m v = [j0 * (a1 * a2) + j1 * a2 + j2, p0 * (b1 * b2) + p1 * b2 + p2,
                 r0 * (c1 * c2) + r1 * c2 + r2]"
      by blast
    from e have e1: "i0 * (a1 * a2) + i1 * a2 + i2 = j0 * (a1 * a2) + j1 * a2 + j2"
      and e2: "o0 * (b1 * b2) + o1 * b2 + o2 = p0 * (b1 * b2) + p1 * b2 + p2"
      and e3: "q0 * (c1 * c2) + q1 * c2 + q2 = r0 * (c1 * c2) + r1 * c2 + r2"
      unfolding m m' by simp_all
    from radix3_inj[OF b(1,2) b'(1,2) b(7,8) b'(7,8) e1]
      radix3_inj[OF b(3,4) b'(3,4) b(9,10) b'(9,10) e2]
      radix3_inj[OF b(5,6) b'(5,6) b(11,12) b'(11,12) e3]
    show "u = v" unfolding u' v' by simp
  qed
  have "distinct (product_lists [L0, L1, L2])"
    by (rule distinct_product_lists) (simp add: d0 d1 d2)
  with inj show "distinct idxs" unfolding I by (simp add: distinct_map del: product_lists.simps)
qed

lemma Util_prod_simps:
  "Util_prod [] = 1" "Util_prod [x] = x" "Util_prod [x, y] = x * y"
  "Util_prod [x, y, z] = x * y * z"
  by (simp_all add: Util_prod_def)

lemma gen_index_spec:
  assumes t: "ti s = [a0, a1, a2]" "to s = [b0, b1, b2]" "tb s = [c0, c1, c2]"
    and pa: "0 < a0" "0 < a1" "0 < a2"
    and pb: "0 < b0" "0 < b1" "0 < b2"
    and pc: "0 < c0" "0 < c1" "0 < c2"
    and o: "orders s = [og, orr]" "distinct og" "set og = {0, 1, 2}"
      "distinct orr" "set orr = {0, 1, 2}"
    and p: "tip s = a0 * a1 * a2" "top s = b0 * b1 * b2" "tbp s = c0 * c1 * c2"
  shows "\<exists>L. gen_index s = (L, None)
    \<and> set L = triples {0..<tip s} {0..<top s} {0..<tbp s}
    \<and> distinct L \<and> length L = nat (tip s * top s * tbp s)"
proof -
  have tx: "level_t_x s BL_GBUF = [a0, b0, c0]" "level_t_x s BL_REGF = [a1, b1, c1]"
    "level_t_x s 2 = [a2, b2, c2]"
    by (simp_all add: level_t_x_def t enum_defs Let_def numeral_3_eq_3)
  have cx: "level_cnt_x s BL_GBUF = [a1 * a2, b1 * b2, c1 * c2]"
    "level_cnt_x s BL_REGF = [a2, b2, c2]"
    by (simp_all add: level_cnt_x_def t enum_defs Let_def numeral_3_eq_3 Util_prod_simps)
  have og: "orders s ! BL_GBUF = og" "orders s ! BL_REGF = orr"
    by (simp_all add: o(1) enum_defs)
  from gen_index_single_level_perm[OF o(2,3)] obtain L0 where
    L0: "gen_index_single_level [a0, b0, c0] og = Inr L0"
      "set L0 = triples {0..<a0} {0..<b0} {0..<c0}" "distinct L0"
      "length L0 = nat a0 * nat b0 * nat c0" by blast
  from gen_index_single_level_perm[OF o(4,5)] obtain L1 where
    L1: "gen_index_single_level [a1, b1, c1] orr = Inr L1"
      "set L1 = triples {0..<a1} {0..<b1} {0..<c1}" "distinct L1"
      "length L1 = nat a1 * nat b1 * nat c1" by blast
  have "distinct [0, 1, 2 :: int]" "set [0, 1, 2 :: int] = {0, 1, 2}" by simp_all
  from gen_index_single_level_perm[OF this] obtain L2 where
    L2: "gen_index_single_level [a2, b2, c2] [0, 1, 2] = Inr L2"
      "set L2 = triples {0..<a2} {0..<b2} {0..<c2}" "distinct L2"
      "length L2 = nat a2 * nat b2 * nat c2" by blast
  define cnts where "cnts = [[a1 * a2, b1 * b2, c1 * c2], [a2, b2, c2], replicate le_NUM 1]"
  define idxs where "idxs = map (\<lambda>bl. merge_idx bl cnts) (product_lists [L0, L1, L2])"
  have len: "length idxs = length L0 * length L1 * length L2"
    unfolding idxs_def by (simp add: length_product_lists del: product_lists.simps)
  have "int (length idxs) = (a0 * b0 * c0) * (a1 * b1 * c1) * (a2 * b2 * c2)"
    unfolding len L0(4) L1(4) L2(4) using pa pb pc by simp
  also have "\<dots> = tip s * top s * tbp s" unfolding p by (simp add: algebra_simps)
  finally have li: "int (length idxs) = tip s * top s * tbp s" .
  have g: "gen_index s = (idxs, None)"
    unfolding gen_index_def Let_def tx cx og L0(1) L1(1) L2(1) sum.case
      idxs_def[symmetric, unfolded cnts_def] li
    by simp
  from merged_indices[OF L0(2,3) L1(2,3) L2(2,3) pa(2,3) pb(2,3) pc(2,3) cnts_def idxs_def]
  have "set idxs = triples {0..<tip s} {0..<top s} {0..<tbp s}" "distinct idxs"
    unfolding p by simp_all
  moreover from li have "length idxs = nat (tip s * top s * tbp s)" by simp
  ultimately show ?thesis using g by blast
qed

lemma gen_index_cong:
  assumes "ti a = ti b" "to a = to b" "tb a = tb b" "orders a = orders b"
    "tip a = tip b" "top a = top b" "tbp a = tbp b"
  shows "gen_index a = gen_index b"
proof -
  have l: "level_t_x a = level_t_x b" "level_cnt_x a = level_cnt_x b"
    by (simp_all add: level_t_x_def level_cnt_x_def assms fun_eq_iff)
  show ?thesis unfolding gen_index_def l assms ..
qed

lemma list3_pos:
  assumes "length xs = 3" "\<forall>x\<in>set xs. 0 < (x :: int)"
  obtains a b c where "xs = [a, b, c]" "0 < a" "0 < b" "0 < c"
proof -
  from assms(1) obtain a b c where "xs = [a, b, c]"
    by (auto simp: numeral_3_eq_3 length_Suc_conv)
  with assms(2) that show ?thesis by simp
qed

lemma gen_index_constructed:
  assumes i: "LoopBlockingScheme_init nld tifm tofm tbat orders_in res opts = Inr s"
    and og: "distinct (orders_in ! me_GBUF)" "set (orders_in ! me_GBUF) = {0, 1, 2}"
    and orr: "distinct (orders_in ! me_REGF)" "set (orders_in ! me_REGF) = {0, 1, 2}"
    and pos: "\<forall>x\<in>set tifm. 0 < x" "\<forall>x\<in>set tofm. 0 < x" "\<forall>x\<in>set tbat. 0 < x"
  shows "\<exists>L. gen_index s = (L, None)
    \<and> set L = triples {0..<tip s} {0..<top s} {0..<tbp s}
    \<and> distinct L \<and> length L = nat (tip s * top s * tbp s)"
    and "0 < tip s * top s * tbp s"
proof -
  note d = init_fields[OF i]
  from d(8) pos(1) obtain a0 a1 a2 where a: "tifm = [a0, a1, a2]" "0 < a0" "0 < a1" "0 < a2"
    by (rule list3_pos)
  from d(9) pos(2) obtain b0 b1 b2 where b: "tofm = [b0, b1, b2]" "0 < b0" "0 < b1" "0 < b2"
    by (rule list3_pos)
  from d(10) pos(3) obtain c0 c1 c2 where c: "tbat = [c0, c1, c2]" "0 < c0" "0 < c1" "0 < c2"
    by (rule list3_pos)
  have p: "tip s = a0 * a1 * a2" "top s = b0 * b1 * b2" "tbp s = c0 * c1 * c2"
    by (simp_all add: d(5-7) a(1) b(1) c(1) Util_prod_simps)
  show "\<exists>L. gen_index s = (L, None)
    \<and> set L = triples {0..<tip s} {0..<top s} {0..<tbp s}
    \<and> distinct L \<and> length L = nat (tip s * top s * tbp s)"
    by (rule gen_index_spec[OF d(1)[unfolded a(1)] d(2)[unfolded b(1)] d(3)[unfolded c(1)]
          a(2-4) b(2-4) c(2-4) d(4) og orr p])
  show "0 < tip s * top s * tbp s"
    unfolding p using a(2-4) b(2-4) c(2-4) by simp
qed

text \<open>
  Claim C3. For every scheme record the constructor returns, with the two orders
  permutations of \<open>(0, 1, 2)\<close> and positive blocking factors, \<^verbatim>\<open>gen_index()\<close> ends without an
  exception and yields exactly \<open>tip * top * tbp\<close> tuples, no two of them equal; the tuples
  it yields are exactly those of the rectangular range
  \<open>[0, tip) \<times> [0, top) \<times> [0, tbp)\<close>, so the position in the sequence and the tuple are in
  bijection. \<open>tip\<close>, \<open>top\<close> and \<open>tbp\<close> are the products of the three blocking factors of
  each loop.
\<close>

theorem gen_index_enumerates_range:
  assumes "LoopBlockingScheme_init nld tifm tofm tbat orders_in res opts = Inr s"
    and "distinct (orders_in ! me_GBUF)" and "set (orders_in ! me_GBUF) = {0, 1, 2}"
    and "distinct (orders_in ! me_REGF)" and "set (orders_in ! me_REGF) = {0, 1, 2}"
    and "\<forall>x\<in>set tifm. 0 < x" and "\<forall>x\<in>set tofm. 0 < x" and "\<forall>x\<in>set tbat. 0 < x"
  shows "\<exists>L. gen_index s = (L, None)
    \<and> length L = nat (tip s * top s * tbp s)
    \<and> distinct L
    \<and> set L = triples {0..<tip s} {0..<top s} {0..<tbp s}
    \<and> bij_betw (\<lambda>n. L ! n) {..<nat (tip s * top s * tbp s)}
          (triples {0..<tip s} {0..<top s} {0..<tbp s})
    \<and> tip s = prod_list tifm \<and> top s = prod_list tofm \<and> tbp s = prod_list tbat"
proof -
  from gen_index_constructed(1)[OF assms] obtain L where
    L: "gen_index s = (L, None)" "set L = triples {0..<tip s} {0..<top s} {0..<tbp s}"
      "distinct L" "length L = nat (tip s * top s * tbp s)" by blast
  have "bij_betw (\<lambda>n. L ! n) {..<nat (tip s * top s * tbp s)}
          (triples {0..<tip s} {0..<top s} {0..<tbp s})"
    using L(3) by (rule bij_betw_nth) (simp_all add: L(2,4))
  moreover have "tip s = prod_list tifm \<and> top s = prod_list tofm \<and> tbp s = prod_list tbat"
    using init_fields(5-7)[OF assms(1)] by (simp add: Util_prod_prod_list)
  ultimately show ?thesis using L by blast
qed

theorem gen_index_enumerates_range_witness:
  "LoopBlockingScheme_init ex_nld [2, 2, 1] [2, 2, 1] [1, 1, 1] ex_orders ex_res ex_opts
     = Inr ex_scheme
   \<and> distinct (ex_orders ! me_GBUF) \<and> set (ex_orders ! me_GBUF) = {0, 1, 2}
   \<and> distinct (ex_orders ! me_REGF) \<and> set (ex_orders ! me_REGF) = {0, 1, 2}
   \<and> snd (gen_index ex_scheme) = None
   \<and> length (fst (gen_index ex_scheme)) = 16
   \<and> distinct (fst (gen_index ex_scheme))
   \<and> set (fst (gen_index ex_scheme)) = triples {0..<4} {0..<4} {0..<1}"
proof -
  have o: "distinct (ex_orders ! me_GBUF)" "set (ex_orders ! me_GBUF) = {0, 1, 2}"
    "distinct (ex_orders ! me_REGF)" "set (ex_orders ! me_REGF) = {0, 1, 2}"
    by (simp_all add: ex_orders_def enum_defs)
  have p: "\<forall>x\<in>set [2, 2, 1 :: int]. 0 < x" "\<forall>x\<in>set [1, 1, 1 :: int]. 0 < x" by simp_all
  have t: "tip ex_scheme = 4" "top ex_scheme = 4" "tbp ex_scheme = 1"
    by (simp_all add: ex_scheme_def ex_attrs_def)
  from gen_index_enumerates_range[OF ex_init o p(1) p(1) p(2)] obtain L where
    "gen_index ex_scheme = (L, None)" "length L = nat (4 * 4 * 1)" "distinct L"
    "set L = triples {0..<4} {0..<4} {0..<1}"
    unfolding t by blast
  with ex_init o show ?thesis by simp
qed

text \<open>
  Claim C4, as the code has it. \<^verbatim>\<open>gen_index()\<close> does not read the attribute \<open>valid\<close>. On a
  scheme record the constructor returns with \<^verbatim>\<open>is_valid()\<close> false (orders permutations of
  \<open>(0, 1, 2)\<close>, positive blocking factors) it yields the same sequence as on a valid record
  with these factors and orders: \<open>tip * top * tbp\<close> tuples, the rectangular range
  \<open>[0, tip) \<times> [0, top) \<times> [0, tbp)\<close>, and so at least one tuple.
\<close>

theorem gen_index_on_invalid_scheme:
  assumes "LoopBlockingScheme_init nld tifm tofm tbat orders_in res opts = Inr s"
    and "\<not> is_valid s"
    and "distinct (orders_in ! me_GBUF)" and "set (orders_in ! me_GBUF) = {0, 1, 2}"
    and "distinct (orders_in ! me_REGF)" and "set (orders_in ! me_REGF) = {0, 1, 2}"
    and "\<forall>x\<in>set tifm. 0 < x" and "\<forall>x\<in>set tofm. 0 < x" and "\<forall>x\<in>set tbat. 0 < x"
  shows "\<exists>L. gen_index s = (L, None) \<and> L \<noteq> []
    \<and> length L = nat (tip s * top s * tbp s)
    \<and> set L = triples {0..<tip s} {0..<top s} {0..<tbp s}
    \<and> (\<forall>v. gen_index (s\<lparr>valid := v\<rparr>) = (L, None))"
proof -
  from gen_index_constructed[OF assms(1,3-9)] obtain L where
    L: "gen_index s = (L, None)" "set L = triples {0..<tip s} {0..<top s} {0..<tbp s}"
      "length L = nat (tip s * top s * tbp s)" and n: "0 < tip s * top s * tbp s" by blast
  from L(3) n have "L \<noteq> []" by auto
  moreover have "gen_index (s\<lparr>valid := v\<rparr>) = gen_index s" for v
    by (rule gen_index_cong) simp_all
  ultimately show ?thesis using L by auto
qed

theorem gen_index_on_invalid_scheme_witness:
  "LoopBlockingScheme_init ex_nld [2, 2, 1] [2, 2, 1] [1, 1, 1] ex_orders ex_res_regf ex_opts
     = Inr ex_attrs
   \<and> \<not> is_valid ex_attrs
   \<and> distinct (ex_orders ! me_GBUF) \<and> set (ex_orders ! me_GBUF) = {0, 1, 2}
   \<and> distinct (ex_orders ! me_REGF) \<and> set (ex_orders ! me_REGF) = {0, 1, 2}
   \<and> snd (gen_index ex_attrs) = None
   \<and> fst (gen_index ex_attrs) \<noteq> []
   \<and> length (fst (gen_index ex_attrs)) = 16"
proof -
  have v: "\<not> is_valid ex_attrs" by code_simp
  have o: "distinct (ex_orders ! me_GBUF)" "set (ex_orders ! me_GBUF) = {0, 1, 2}"
    "distinct (ex_orders ! me_REGF)" "set (ex_orders ! me_REGF) = {0, 1, 2}"
    by (simp_all add: ex_orders_def enum_defs)
  have p: "\<forall>x\<in>set [2, 2, 1 :: int]. 0 < x" "\<forall>x\<in>set [1, 1, 1 :: int]. 0 < x" by simp_all
  have t: "tip ex_attrs = 4" "top ex_attrs = 4" "tbp ex_attrs = 1"
    by (simp_all add: ex_attrs_def)
  from gen_index_on_invalid_scheme[OF ex_init_regf v o p(1) p(1) p(2)] obtain L where
    "gen_index ex_attrs = (L, None)" "L \<noteq> []" "length L = nat (4 * 4 * 1)"
    unfolding t by blast
  with ex_init_regf v o show ?thesis by simp
qed

text \<open>
  The claim as stated fails on the example record that the constructor marks invalid at
  the first capacity check: \<^verbatim>\<open>gen_index()\<close> yields its 16 index tuples.
\<close>

theorem gen_index_invalid_not_empty_counterexample:
  "LoopBlockingScheme_init ex_nld [2, 2, 1] [2, 2, 1] [1, 1, 1] ex_orders ex_res_regf ex_opts
     = Inr ex_attrs
   \<and> \<not> is_valid ex_attrs
   \<and> gen_index ex_attrs
       = ([[0, 0, 0], [1, 0, 0], [0, 1, 0], [1, 1, 0], [2, 0, 0], [3, 0, 0], [2, 1, 0], [3, 1, 0],
           [0, 2, 0], [1, 2, 0], [0, 3, 0], [1, 3, 0], [2, 2, 0], [3, 2, 0], [2, 3, 0], [3, 3, 0]],
          None)"
proof -
  have "\<not> is_valid ex_attrs" by code_simp
  moreover have "gen_index ex_attrs
       = ([[0, 0, 0], [1, 0, 0], [0, 1, 0], [1, 1, 0], [2, 0, 0], [3, 0, 0], [2, 1, 0], [3, 1, 0],
           [0, 2, 0], [1, 2, 0], [0, 3, 0], [1, 3, 0], [2, 2, 0], [3, 2, 0], [2, 3, 0], [3, 3, 0]],
          None)"
    by code_simp
  ultimately show ?thesis using ex_init_regf by simp
qed

end
